theory Spec2Isabelle
  imports Main "HOL-Library.Word" "HOL-Library.List_Lexorder"
begin

section \<open>Names\<close>

text \<open>
  Modelled from the spec: the name library is an external collaborator of
  \<^verbatim>\<open>index.cpp\<close> and is not among the sources; the index consumes its comparison, its
  prefix test, \<^verbatim>\<open>getPrefix\<close> and \<^verbatim>\<open>getSuccessor\<close>. A name is a sequence of opaque
  binary components. Components are compared in canonical order: the shorter component
  is the smaller one, components of equal length are compared byte by byte. Names are
  compared component by component, a proper prefix being smaller. The successor of a
  name that is not empty has the next component in canonical order in the place of the
  last one; it lies above every name that has the name as a prefix.
\<close>

datatype component = Component (getValue: "8 word list")

instantiation component :: linorder
begin

definition less_component :: "component \<Rightarrow> component \<Rightarrow> bool" where
  "less_component a b =
     (length (getValue a) < length (getValue b) \<or>
      (length (getValue a) = length (getValue b) \<and> getValue a < getValue b))"

definition less_eq_component :: "component \<Rightarrow> component \<Rightarrow> bool" where
  "less_eq_component a b = (a < b \<or> a = b)"

instance
proof
  fix x y z :: component
  show "(x < y) = (x \<le> y \<and> \<not> y \<le> x)"
    by (auto simp: less_component_def less_eq_component_def)
  show "x \<le> x"
    by (simp add: less_eq_component_def)
  show "x \<le> y \<Longrightarrow> y \<le> z \<Longrightarrow> x \<le> z"
    by (auto simp: less_component_def less_eq_component_def)
  show "x \<le> y \<Longrightarrow> y \<le> x \<Longrightarrow> x = y"
    by (auto simp: less_component_def less_eq_component_def)
  show "x \<le> y \<or> y \<le> x"
    by (cases x; cases y) (auto simp: less_component_def less_eq_component_def)
qed

end

type_synonym name = "component list"

fun isPrefixOf :: "name \<Rightarrow> name \<Rightarrow> bool" where
  "isPrefixOf [] n = True"
| "isPrefixOf (c # cs) [] = False"
| "isPrefixOf (c # cs) (d # ds) = (c = d \<and> isPrefixOf cs ds)"

definition getPrefix :: "name \<Rightarrow> nat \<Rightarrow> name" where
  \<comment> \<open>\<^verbatim>\<open>getPrefix(n)\<close> for \<open>n \<ge> 0\<close>: the first \<open>n\<close> components, the whole name when it
      has fewer.\<close>
  "getPrefix n k = take k n"

fun incrementBytes :: "8 word list \<Rightarrow> 8 word list \<times> bool" where
  \<comment> \<open>Adds one to a little-endian byte string; the flag reports the carry out.\<close>
  "incrementBytes [] = ([], True)"
| "incrementBytes (b # bs) =
     (if b + 1 = 0
      then (case incrementBytes bs of (r, isOverflow) \<Rightarrow> (0 # r, isOverflow))
      else ((b + 1) # bs, False))"

definition componentSuccessor :: "component \<Rightarrow> component" where
  \<comment> \<open>The next component in canonical order: the value plus one, read as a big-endian
      number; when every byte overflows, the all-zero value one byte longer.\<close>
  "componentSuccessor c =
     (case incrementBytes (rev (getValue c)) of
        (r, isOverflow) \<Rightarrow>
          if isOverflow then Component (replicate (length (getValue c) + 1) 0)
          else Component (rev r))"

definition getSuccessor :: "name \<Rightarrow> name" where
  \<comment> \<open>The successor of the empty name is the name of one component, the byte \<open>0\<close>;
      otherwise the last component is replaced by its successor.\<close>
  "getSuccessor n =
     (if n = [] then [Component [0]] else butlast n @ [componentSuccessor (last n)])"

section \<open>Entries, queries and the index\<close>

datatype status = EXISTED | INSERTED | DELETED | NONE

type_synonym buffer = "8 word list"

record entry =
  m_name :: name
  m_keyLocatorHash :: "buffer option"  \<comment> \<open>a shared pointer; \<open>None\<close> is the null pointer\<close>
  m_id :: "64 word"
  m_status :: status

text \<open>
  The fields of a query that the index reads. The key locator is kept abstract
  (\<open>None\<close> is the empty key locator); the exclude filter is \<open>None\<close> when it is empty
  and otherwise the predicate \<^verbatim>\<open>isExcluded\<close>.
\<close>

record 'k interest =
  getName :: name
  getMinSuffixComponents :: int
  getMaxSuffixComponents :: int
  getExclude :: "(component \<Rightarrow> bool) option"
  getChildSelector :: int
  getPublisherPublicKeyLocator :: "'k option"

text \<open>A content item: its full name and the key locator of its signature, if any.\<close>

record 'k data =
  getFullName :: name
  getSignatureKeyLocator :: "'k option"

record index =
  m_skipList :: "entry list"
  m_maxPackets :: "64 word"  \<comment> \<open>\<^verbatim>\<open>size_t\<close>, taken as 64 bits wide\<close>
  m_size :: "64 word"

datatype error =
    IndexFull              \<comment> \<open>\<^verbatim>\<open>Error("The Index is Full. Cannot Insert Any Data!")\<close>\<close>
  | CannotChangeStatus     \<comment> \<open>\<^verbatim>\<open>Error("Delete Entry: Cannot change status!")\<close>\<close>
  | NullPointer            \<comment> \<open>a null key-locator hash is dereferenced\<close>
  | InvalidIterator        \<comment> \<open>\<^verbatim>\<open>begin()\<close> is decremented, or \<^verbatim>\<open>end()\<close> dereferenced\<close>

type_synonym found = "64 word \<times> name"

definition notFound :: found where
  \<comment> \<open>\<^verbatim>\<open>std::make_pair(0, Name())\<close>\<close>
  "notFound = (0, [])"

subsection \<open>The ordered container\<close>

text \<open>
  Modelled from the spec: \<^verbatim>\<open>skiplist.hpp\<close>, the container of the entries, is not among
  the sources. It is the list of the entries in ascending order of their names, each
  name held once; an iterator is a position in the list, \<^verbatim>\<open>end()\<close> the length.
  \<^verbatim>\<open>lower_bound\<close> is the first entry whose name is not below the probe, \<^verbatim>\<open>find\<close>
  the entry of an equal name, \<^verbatim>\<open>insert\<close> refuses a name already present, \<^verbatim>\<open>erase\<close>
  removes the entry at a position and returns the position of the next one.
\<close>

definition lower_bound :: "entry list \<Rightarrow> name \<Rightarrow> nat" where
  "lower_bound es n = length (takeWhile (\<lambda>e. m_name e < n) es)"

definition skiplist_find :: "entry list \<Rightarrow> name \<Rightarrow> nat" where
  "skiplist_find es n =
     (let i = lower_bound es n
      in if i < length es \<and> m_name (es ! i) = n then i else length es)"

definition skiplist_insert :: "entry list \<Rightarrow> entry \<Rightarrow> entry list \<times> bool" where
  "skiplist_insert es e =
     (if skiplist_find es (m_name e) \<noteq> length es then (es, False)
      else (let i = lower_bound es (m_name e) in (take i es @ e # drop i es, True)))"

definition skiplist_erase :: "entry list \<Rightarrow> nat \<Rightarrow> entry list" where
  "skiplist_erase es i = take i es @ drop (Suc i) es"

definition sorted_names :: "entry list \<Rightarrow> bool" where
  \<comment> \<open>The container's invariant: names strictly ascending.\<close>
  "sorted_names es = sorted_wrt (<) (map m_name es)"

subsection \<open>Construction\<close>

definition Index :: "64 word \<Rightarrow> index" where
  "Index nMaxPackets = \<lparr>m_skipList = [], m_maxPackets = nMaxPackets, m_size = 0\<rparr>"

text \<open>
  Modelled from the spec: \<^verbatim>\<open>isFull\<close> is declared in \<^verbatim>\<open>index.hpp\<close>, which is not
  among the sources. Insertion fails when the current size equals the configured maximum.
\<close>

definition isFull :: "index \<Rightarrow> bool" where
  "isFull s = (m_size s = m_maxPackets s)"

text \<open>
  The constructors of \<^verbatim>\<open>Index::Entry\<close>. \<open>sha256\<close> stands for
  \<^verbatim>\<open>computeKeyLocatorHash\<close>, the digest of the wire encoding of a key locator,
  which an external primitive computes. An entry made from a content item whose
  signature has no key locator keeps the null hash.
\<close>

definition Entry_data :: "('k \<Rightarrow> buffer) \<Rightarrow> 'k data \<Rightarrow> 64 word \<Rightarrow> entry" where
  "Entry_data sha256 d ident =
     \<lparr>m_name = getFullName d,
      m_keyLocatorHash =
        (case getSignatureKeyLocator d of None \<Rightarrow> None | Some k \<Rightarrow> Some (sha256 k)),
      m_id = ident, m_status = EXISTED\<rparr>"

definition Entry_hash :: "name \<Rightarrow> buffer option \<Rightarrow> 64 word \<Rightarrow> entry" where
  "Entry_hash fullName keyLocatorHash ident =
     \<lparr>m_name = fullName, m_keyLocatorHash = keyLocatorHash, m_id = ident,
      m_status = EXISTED\<rparr>"

subsection \<open>The simple selectors\<close>

definition matchesSimpleSelectors :: "'k interest \<Rightarrow> buffer option \<Rightarrow> entry \<Rightarrow> error + bool" where
  "matchesSimpleSelectors interest hash entry =
     (if m_status entry = DELETED then Inr False
      else let fullName = m_name entry in
      if \<not> isPrefixOf (getName interest) fullName then Inr False
      else let nSuffixComponents = length fullName - length (getName interest) in
      if getMinSuffixComponents interest \<ge> 0 \<and>
         nSuffixComponents < nat (getMinSuffixComponents interest) then Inr False
      else if getMaxSuffixComponents interest \<ge> 0 \<and>
         nSuffixComponents > nat (getMaxSuffixComponents interest) then Inr False
      else if (case getExclude interest of
                 None \<Rightarrow> False
               | Some isExcluded \<Rightarrow>
                   length (m_name entry) > length (getName interest) \<and>
                   isExcluded (m_name entry ! length (getName interest))) then Inr False
      else if getPublisherPublicKeyLocator interest \<noteq> None then
        (case m_keyLocatorHash entry of
           None \<Rightarrow> Inl NullPointer
         | Some entryHash \<Rightarrow>
             (case hash of
                None \<Rightarrow> Inl NullPointer
              | Some h \<Rightarrow> if entryHash \<noteq> h then Inr False else Inr True))
      else Inr True)"

subsection \<open>insert\<close>

text \<open>
  Both overloads of \<^verbatim>\<open>Index::insert\<close> run the same statements once the entry is
  constructed; \<open>insertEntry\<close> is that common body. A throw leaves the index as it is at
  the throw, so each operation returns its outcome together with the index.
\<close>

definition insertEntry :: "index \<Rightarrow> entry \<Rightarrow> (error + bool) \<times> index" where
  "insertEntry s entry =
     (let es = m_skipList s;
          result = skiplist_find es (m_name entry);
          (es', isInserted) =
            (if result = length es then skiplist_insert es entry
             else if m_status (es ! result) = DELETED
               then skiplist_insert (skiplist_erase es result) (entry\<lparr>m_status := INSERTED\<rparr>)
             else (es, False))
      in if isInserted then (Inr True, s\<lparr>m_skipList := es', m_size := m_size s + 1\<rparr>)
         else (Inr False, s\<lparr>m_skipList := es'\<rparr>))"

definition insert_data ::
  "('k \<Rightarrow> buffer) \<Rightarrow> index \<Rightarrow> 'k data \<Rightarrow> 64 word \<Rightarrow> (error + bool) \<times> index" where
  "insert_data sha256 s d ident =
     (if isFull s then (Inl IndexFull, s)
      else insertEntry s (Entry_data sha256 d ident))"

definition insert_name ::
  "index \<Rightarrow> name \<Rightarrow> 64 word \<Rightarrow> buffer option \<Rightarrow> (error + bool) \<times> index" where
  "insert_name s fullName ident keyLocatorHash =
     (if isFull s then (Inl IndexFull, s)
      else insertEntry s (Entry_hash fullName keyLocatorHash ident))"

subsection \<open>erase and removeDeletedEntry\<close>

definition erase :: "index \<Rightarrow> name \<Rightarrow> (error + bool) \<times> index" where
  "erase s fullName =
     (let es = m_skipList s;
          findIterator = skiplist_find es fullName
      in if findIterator \<noteq> length es then
           (let remove = (es ! findIterator)\<lparr>m_status := DELETED\<rparr>;
                es1 = skiplist_erase es findIterator;
                (es2, ok) = skiplist_insert es1 remove
            in if \<not> ok then (Inl CannotChangeStatus, s\<lparr>m_skipList := es2\<rparr>)
               else (Inr True, s\<lparr>m_skipList := es2, m_size := m_size s - 1\<rparr>))
         else (Inr False, s))"

function removeDeletedLoop :: "entry list \<Rightarrow> nat \<Rightarrow> entry list" where
  "removeDeletedLoop es iter =
     (if iter < length es then
        (if m_status (es ! iter) = DELETED then removeDeletedLoop (skiplist_erase es iter) iter
         else removeDeletedLoop es (Suc iter))
      else es)"
  by pat_completeness auto
termination
  by (relation "measure (\<lambda>(es, iter). length es - iter)") (auto simp: skiplist_erase_def)

declare removeDeletedLoop.simps [simp del]

definition removeDeletedEntry :: "index \<Rightarrow> index" where
  "removeDeletedEntry s = s\<lparr>m_skipList := removeDeletedLoop (m_skipList s) 0\<rparr>"

subsection \<open>getStatus, hasData and find by name\<close>

definition getStatus :: "index \<Rightarrow> name \<Rightarrow> status" where
  "getStatus s n =
     (let es = m_skipList s; result = lower_bound es n
      in if result = length es then NONE
         else if isPrefixOf n (m_name (es ! result)) then m_status (es ! result)
         else NONE)"

definition hasData :: "('k \<Rightarrow> buffer) \<Rightarrow> index \<Rightarrow> 'k data \<Rightarrow> bool" where
  "hasData sha256 s d =
     (let entry = Entry_data sha256 d (- 1);
          es = m_skipList s;
          result = skiplist_find es (m_name entry)
      in result \<noteq> length es \<and> m_status (es ! result) \<noteq> DELETED)"

function findFirstEntry :: "entry list \<Rightarrow> name \<Rightarrow> nat \<Rightarrow> found" where
  "findFirstEntry es pfx iter =
     (if iter < length es then
        (if m_status (es ! iter) = DELETED then findFirstEntry es pfx (Suc iter)
         else if isPrefixOf pfx (m_name (es ! iter))
           then (m_id (es ! iter), m_name (es ! iter))
         else notFound)
      else notFound)"
  by pat_completeness auto
termination
  by (relation "measure (\<lambda>(es, pfx, iter). length es - iter)") auto

declare findFirstEntry.simps [simp del]

definition find_name :: "index \<Rightarrow> name \<Rightarrow> found" where
  "find_name s n =
     (let es = m_skipList s; result = lower_bound es n
      in if result \<noteq> length es then findFirstEntry es n result else notFound)"

subsection \<open>find by query: selectChild\<close>

function skipDeleted :: "entry list \<Rightarrow> nat \<Rightarrow> nat" where
  \<comment> \<open>\<^verbatim>\<open>while (it != end() && it->getStatus() == DELETED) it++;\<close>\<close>
  "skipDeleted es it =
     (if it < length es \<and> m_status (es ! it) = DELETED then skipDeleted es (Suc it) else it)"
  by pat_completeness auto
termination
  by (relation "measure (\<lambda>(es, it). length es - it)") auto

declare skipDeleted.simps [simp del]

function leftmostLoop :: "'k interest \<Rightarrow> buffer option \<Rightarrow> entry list \<Rightarrow> nat \<Rightarrow> error + found" where
  "leftmostLoop interest hash es it =
     (if it < length es then
        (if m_status (es ! it) = DELETED then leftmostLoop interest hash es (Suc it)
         else if \<not> isPrefixOf (getName interest) (m_name (es ! it)) then Inr notFound
         else (case matchesSimpleSelectors interest hash (es ! it) of
                 Inl e \<Rightarrow> Inl e
               | Inr isMatch \<Rightarrow>
                   if isMatch then Inr (m_id (es ! it), m_name (es ! it))
                   else leftmostLoop interest hash es (Suc it)))
      else Inr notFound)"
  by pat_completeness auto
termination
  by (relation "measure (\<lambda>(interest, hash, es, it). length es - it)") auto

declare leftmostLoop.simps [simp del]

function find_if :: "'k interest \<Rightarrow> buffer option \<Rightarrow> entry list \<Rightarrow> nat \<Rightarrow> nat \<Rightarrow> error + nat" where
  \<comment> \<open>\<^verbatim>\<open>std::find_if(first, last, bind(&matchesSimpleSelectors, interest, hash, _1))\<close>:
      the first position in \<open>[first, last')\<close> whose entry matches, otherwise \<open>last'\<close>. A
      scan that starts beyond \<open>last'\<close> runs into \<^verbatim>\<open>end()\<close>.\<close>
  "find_if interest hash es first last' =
     (if first = last' then Inr last'
      else if first \<ge> length es then Inl InvalidIterator
      else (case matchesSimpleSelectors interest hash (es ! first) of
              Inl e \<Rightarrow> Inl e
            | Inr isMatch \<Rightarrow>
                if isMatch then Inr first else find_if interest hash es (Suc first) last'))"
  by pat_completeness auto
termination
  by (relation "measure (\<lambda>(interest, hash, es, first, last'). length es - first)") auto

declare find_if.simps [simp del]

text \<open>
  The \<^verbatim>\<open>while (true)\<close> loop of the rightmost branch. Its only variable is \<^verbatim>\<open>last\<close>, here \<open>last'\<close>.
  The loop has no bound of its own, so it is a partial function: \<open>None\<close> is the run
  that never returns. \<^verbatim>\<open>--prev\<close> on \<^verbatim>\<open>begin()\<close> is outside the contract of the iterator
  and is the error \<open>InvalidIterator\<close>.
\<close>

partial_function (option) rightmostLoop ::
  "'k interest \<Rightarrow> buffer option \<Rightarrow> entry list \<Rightarrow> nat \<Rightarrow> nat \<Rightarrow> (error + found) option" where
  "rightmostLoop interest hash es boundary last' =
     (if last' = 0 then Some (Inl InvalidIterator)
      else let prev = last' - 1 in
      if prev = boundary \<and> m_status (es ! prev) \<noteq> DELETED then
        (case matchesSimpleSelectors interest hash (es ! prev) of
           Inl e \<Rightarrow> Some (Inl e)
         | Inr isMatch \<Rightarrow>
             if isMatch then Some (Inr (m_id (es ! prev), m_name (es ! prev)))
             else Some (Inr notFound))
      else let first = skipDeleted es
                 (lower_bound es
                    (getPrefix (m_name (es ! prev)) (length (getName interest) + 1))) in
      (case find_if interest hash es first last' of
         Inl e \<Rightarrow> Some (Inl e)
       | Inr match \<Rightarrow>
           if match \<noteq> last' then Some (Inr (m_id (es ! match), m_name (es ! match)))
           else rightmostLoop interest hash es boundary first))"

declare rightmostLoop.simps [code]

definition selectChild ::
  "('k \<Rightarrow> buffer) \<Rightarrow> index \<Rightarrow> 'k interest \<Rightarrow> nat \<Rightarrow> (error + found) option" where
  "selectChild sha256 s interest startingPoint =
     (let es = m_skipList s;
          isLeftmost = (getChildSelector interest \<le> 0);
          hash = (case getPublisherPublicKeyLocator interest of
                    None \<Rightarrow> None
                  | Some keyLocator \<Rightarrow> Some (sha256 keyLocator))
      in if isLeftmost then Some (leftmostLoop interest hash es startingPoint)
         else
           (let boundary = skipDeleted es (lower_bound es (getName interest))
            in if boundary = length es \<or>
                  \<not> isPrefixOf (getName interest) (m_name (es ! boundary))
               then Some (Inr notFound)
               else
                 (let last' = skipDeleted es
                        (if length (getName interest) = 0 then length es
                         else lower_bound es (getSuccessor (getName interest)))
                  in rightmostLoop interest hash es boundary last')))"

definition find_interest ::
  "('k \<Rightarrow> buffer) \<Rightarrow> index \<Rightarrow> 'k interest \<Rightarrow> (error + found) option" where
  "find_interest sha256 s interest =
     (let result = lower_bound (m_skipList s) (getName interest)
      in if result \<noteq> length (m_skipList s) then selectChild sha256 s interest result
         else Some (Inr notFound))"

section \<open>Properties stated by the specification\<close>

text \<open>
  The notions in which the specification speaks of the index: the live count, the index
  as a map from names to entries, the outcome of an insert, the first descendant of a
  name, the simple-selector predicate and the reference scan of the rightmost
  disambiguation.
\<close>

definition liveCount :: "index \<Rightarrow> nat" where
  "liveCount s = length (filter (\<lambda>e. m_status e \<noteq> DELETED) (m_skipList s))"

definition sizeInvariant :: "index \<Rightarrow> bool" where
  \<comment> \<open>\<^verbatim>\<open>size\<close> is the count of the entries that are not DELETED, and at most the
      configured maximum.\<close>
  "sizeInvariant s = (unat (m_size s) = liveCount s \<and> m_size s \<le> m_maxPackets s)"

definition lookupName :: "entry list \<Rightarrow> name \<Rightarrow> entry option" where
  \<comment> \<open>The entry that occupies a name, live or tombstoned.\<close>
  "lookupName es n = find (\<lambda>x. m_name x = n) es"

definition stored :: "index \<Rightarrow> entry \<Rightarrow> index \<Rightarrow> bool" where
  \<comment> \<open>From \<open>s\<close> to \<open>s'\<close> the entry \<open>e\<close> has taken the place of its name and nothing else
      in the container has changed.\<close>
  "stored s e s' =
     (sorted_names (m_skipList s') \<and>
      lookupName (m_skipList s') (m_name e) = Some e \<and>
      (\<forall>m. m \<noteq> m_name e \<longrightarrow> lookupName (m_skipList s') m = lookupName (m_skipList s) m) \<and>
      m_maxPackets s' = m_maxPackets s)"

definition insertOutcome ::
  "index \<Rightarrow> name \<Rightarrow> buffer option \<Rightarrow> 64 word \<Rightarrow> (error + bool) \<times> index \<Rightarrow> bool" where
  \<comment> \<open>What the specification says of an insert of the name \<open>n\<close> with the hash \<open>h\<close> and
      the id \<open>ident\<close> into \<open>s\<close>, with the outcome \<open>r\<close>: the capacity error and no
      change when the size equals the maximum; otherwise a fresh entry with that name,
      hash and id, or the resurrected entry with the new hash and id in the place of the
      tombstone, or nothing changed.\<close>
  "insertOutcome s n h ident r =
     (if m_size s = m_maxPackets s then r = (Inl IndexFull, s)
      else case lookupName (m_skipList s) n of
             None \<Rightarrow>
               fst r = Inr True \<and>
               stored s \<lparr>m_name = n, m_keyLocatorHash = h, m_id = ident, m_status = EXISTED\<rparr>
                 (snd r) \<and>
               m_size (snd r) = m_size s + 1
           | Some x \<Rightarrow>
               if m_status x = DELETED
               then fst r = Inr True \<and>
                    stored s \<lparr>m_name = n, m_keyLocatorHash = h, m_id = ident, m_status = INSERTED\<rparr>
                      (snd r) \<and>
                    m_size (snd r) = m_size s + 1
               else r = (Inr False, s))"

definition firstDescendant :: "entry list \<Rightarrow> name \<Rightarrow> entry option" where
  \<comment> \<open>The first entry whose name has \<open>n\<close> as a prefix, tombstones included.\<close>
  "firstDescendant es n = find (\<lambda>e. isPrefixOf n (m_name e)) es"

definition firstLiveDescendant :: "entry list \<Rightarrow> name \<Rightarrow> entry option" where
  \<comment> \<open>The first entry, in the order of the container, that is not DELETED and whose name
      has \<open>n\<close> as a prefix.\<close>
  "firstLiveDescendant es n = find (\<lambda>e. m_status e \<noteq> DELETED \<and> isPrefixOf n (m_name e)) es"

definition foundOf :: "entry option \<Rightarrow> found" where
  "foundOf r = (case r of None \<Rightarrow> notFound | Some e \<Rightarrow> (m_id e, m_name e))"

definition statusOf :: "entry option \<Rightarrow> status" where
  "statusOf r = (case r of None \<Rightarrow> NONE | Some e \<Rightarrow> m_status e)"

definition satisfiesSelectors :: "('k \<Rightarrow> buffer) \<Rightarrow> 'k interest \<Rightarrow> entry \<Rightarrow> bool" where
  \<comment> \<open>The simple-selector predicate in the words of the specification: not DELETED; the
      query name is a prefix; the number of suffix components is within the bounds that
      are not negative; the component that follows the prefix is not excluded; the hash
      equals the digest of the publisher key locator when the query carries one.\<close>
  "satisfiesSelectors sha256 interest e =
     (m_status e \<noteq> DELETED \<and>
      isPrefixOf (getName interest) (m_name e) \<and>
      (getMinSuffixComponents interest < 0 \<or>
       nat (getMinSuffixComponents interest) \<le> length (m_name e) - length (getName interest)) \<and>
      (getMaxSuffixComponents interest < 0 \<or>
       length (m_name e) - length (getName interest) \<le> nat (getMaxSuffixComponents interest)) \<and>
      (case getExclude interest of
         None \<Rightarrow> True
       | Some isExcluded \<Rightarrow>
           length (m_name e) \<le> length (getName interest) \<or>
           \<not> isExcluded (m_name e ! length (getName interest))) \<and>
      (case getPublisherPublicKeyLocator interest of
         None \<Rightarrow> True
       | Some keyLocator \<Rightarrow> m_keyLocatorHash e = Some (sha256 keyLocator)))"




subsection \<open>Notions used in the proofs\<close>

definition hashOf :: "('k \<Rightarrow> buffer) \<Rightarrow> 'k interest \<Rightarrow> buffer option" where
  \<comment> \<open>The local \<^verbatim>\<open>hash\<close> of \<^verbatim>\<open>selectChild\<close>.\<close>
  "hashOf sha256 interest =
     (case getPublisherPublicKeyLocator interest of
        None \<Rightarrow> None
      | Some keyLocator \<Rightarrow> Some (sha256 keyLocator))"

definition hashesPresent :: "'k interest \<Rightarrow> entry list \<Rightarrow> bool" where
  \<comment> \<open>No entry has a null hash, unless the query carries no publisher key locator.\<close>
  "hashesPresent interest es =
     (getPublisherPublicKeyLocator interest = None \<or>
      list_all (\<lambda>e. m_keyLocatorHash e \<noteq> None) es)"

definition stuckWindow :: "'k interest \<Rightarrow> entry list \<Rightarrow> nat \<Rightarrow> nat \<Rightarrow> bool" where
  \<comment> \<open>One pass of the rightmost loop from \<open>last'\<close> neither returns nor moves \<open>last'\<close>.\<close>
  "stuckWindow interest es boundary last' =
     (last' \<noteq> 0 \<and>
      \<not> (last' - 1 = boundary \<and> m_status (es ! (last' - 1)) \<noteq> DELETED) \<and>
      skipDeleted es (lower_bound es
        (getPrefix (m_name (es ! (last' - 1))) (length (getName interest) + 1))) = last')"




subsection \<open>Sample names, queries and indexes\<close>

definition nameA :: name where "nameA = [Component [97]]"
definition nameB :: name where "nameB = [Component [98]]"
definition nameC :: name where "nameC = [Component [99]]"
definition nameD :: name where "nameD = [Component [100]]"
definition nameA1 :: name where "nameA1 = [Component [97], Component [49]]"
definition nameA2 :: name where "nameA2 = [Component [97], Component [50]]"

definition plainInterest :: "name \<Rightarrow> int \<Rightarrow> buffer interest" where
  \<comment> \<open>A query with a name and a child selector, every other selector absent.\<close>
  "plainInterest n childSelector =
     \<lparr>getName = n, getMinSuffixComponents = - 1, getMaxSuffixComponents = - 1,
      getExclude = None, getChildSelector = childSelector,
      getPublisherPublicKeyLocator = None\<rparr>"

definition keyInterest :: "name \<Rightarrow> int \<Rightarrow> 'k \<Rightarrow> 'k interest" where
  \<comment> \<open>A query with a name, a child selector and a publisher key locator.\<close>
  "keyInterest n childSelector keyLocator =
     \<lparr>getName = n, getMinSuffixComponents = - 1, getMaxSuffixComponents = - 1,
      getExclude = None, getChildSelector = childSelector,
      getPublisherPublicKeyLocator = Some keyLocator\<rparr>"

definition indexB_C :: index where
  \<comment> \<open>\<^verbatim>\<open>Index(2); insert(/a, 1); insert(/b, 2); erase(/a); erase(/a); insert(/c, 3)\<close>\<close>
  "indexB_C =
     snd (insert_name
       (snd (erase (snd (erase
          (snd (insert_name (snd (insert_name (Index 2) nameA 1 None)) nameB 2 None))
          nameA)) nameA))
       nameC 3 None)"

definition indexA_A1 :: index where
  \<comment> \<open>\<^verbatim>\<open>Index(10); insert(/a, 1); insert(/a/1, 2)\<close>\<close>
  "indexA_A1 = snd (insert_name (snd (insert_name (Index 10) nameA 1 None)) nameA1 2 None)"


definition indexA1_A2_keyed :: "('k \<Rightarrow> buffer) \<Rightarrow> 'k \<Rightarrow> index" where
  \<comment> \<open>\<^verbatim>\<open>Index(10)\<close>, then the insert of a content item \<^verbatim>\<open>/a/1\<close> whose signature has no
      key locator, then of a content item \<^verbatim>\<open>/a/2\<close> signed with the key locator.\<close>
  "indexA1_A2_keyed sha256 keyLocator =
     snd (insert_data sha256
       (snd (insert_data sha256 (Index 10)
          \<lparr>getFullName = nameA1, getSignatureKeyLocator = None\<rparr> 1))
       \<lparr>getFullName = nameA2, getSignatureKeyLocator = Some keyLocator\<rparr> 2)"

section \<open>Lemmas\<close>

text \<open>
  The index is studied on containers whose names are strictly ascending
  (\<open>sorted_names\<close>), which the empty index is and which insert, erase and the prune
  keep. On such a container \<^verbatim>\<open>lower_bound\<close> and \<^verbatim>\<open>find\<close> are positions in the list,
  the index is a map from names to entries (\<open>lookupName\<close>), and the descendants of a name
  are the run of entries that starts at its lower bound.
\<close>

lemmas sample_defs = nameA_def nameB_def nameA1_def nameA2_def plainInterest_def

lemmas skiplist_defs = lower_bound_def skiplist_find_def skiplist_insert_def skiplist_erase_def

lemmas index_defs = Index_def isFull_def insert_name_def insert_data_def insertEntry_def
  Entry_hash_def Entry_data_def erase_def

subsection \<open>Names: prefixes and the canonical order\<close>

lemma isPrefixOf_take: "isPrefixOf q n \<longleftrightarrow> take (length q) n = q"
  by (induction q n rule: isPrefixOf.induct) auto

lemma isPrefixOf_refl [simp]: "isPrefixOf n n"
  by (simp add: isPrefixOf_take)

lemma isPrefixOf_length: "isPrefixOf q n \<Longrightarrow> length q \<le> length n"
  by (induction q n rule: isPrefixOf.induct) auto

lemma isPrefixOf_le: "isPrefixOf q n \<Longrightarrow> q \<le> n"
  by (induction q n rule: isPrefixOf.induct) auto

lemma isPrefixOf_between:
  "isPrefixOf q b \<Longrightarrow> q \<le> a \<Longrightarrow> a \<le> b \<Longrightarrow> isPrefixOf q a"
proof (induction q b arbitrary: a rule: isPrefixOf.induct)
  case (1 n)
  then show ?case by simp
next
  case (2 c cs)
  then show ?case by simp
next
  case (3 c cs d ds)
  then obtain x as where a: "a = x # as"
    by (cases a) auto
  with 3 show ?case by auto
qed


subsection \<open>The container: positions in a sorted list\<close>

lemma skiplist_find_present:
  "skiplist_find es n \<noteq> length es \<Longrightarrow> n \<in> m_name ` set es"
  by (auto simp: skiplist_find_def Let_def image_iff split: if_splits) (metis nth_mem)

lemma lower_bound_le: "lower_bound es n \<le> length es"
  by (simp add: lower_bound_def length_takeWhile_le)

lemma lower_bound_below: "i < lower_bound es n \<Longrightarrow> m_name (es ! i) < n"
  unfolding lower_bound_def
  using takeWhile_nth [of i "\<lambda>e. m_name e < n" es] nth_mem [of i "takeWhile (\<lambda>e. m_name e < n) es"]
  by (auto dest: set_takeWhileD)

lemma sorted_names_nth:
  "sorted_names es \<Longrightarrow> i < j \<Longrightarrow> j < length es \<Longrightarrow> m_name (es ! i) < m_name (es ! j)"
  by (simp add: sorted_names_def sorted_wrt_iff_nth_less)

lemma sorted_names_nth_le:
  "sorted_names es \<Longrightarrow> i \<le> j \<Longrightarrow> j < length es \<Longrightarrow> m_name (es ! i) \<le> m_name (es ! j)"
  using sorted_names_nth [of es i j] by (cases "i = j") auto

lemma lower_bound_above:
  assumes "sorted_names es" "lower_bound es n \<le> i" "i < length es"
  shows "n \<le> m_name (es ! i)"
proof -
  let ?k = "lower_bound es n"
  have "?k < length es" using assms by simp
  then have "\<not> m_name (es ! ?k) < n"
    unfolding lower_bound_def by (rule nth_length_takeWhile)
  then have "n \<le> m_name (es ! ?k)" by simp
  also have "\<dots> \<le> m_name (es ! i)"
    using assms by (intro sorted_names_nth_le)
  finally show ?thesis .
qed

lemma lower_bound_eqI:
  assumes "k \<le> length es"
    and "\<And>i. i < k \<Longrightarrow> m_name (es ! i) < n"
    and "k < length es \<Longrightarrow> n \<le> m_name (es ! k)"
  shows "lower_bound es n = k"
proof -
  have "takeWhile (\<lambda>e. m_name e < n) es = take k es"
    using assms by (intro takeWhile_eq_take_P_nth) auto
  with assms(1) show ?thesis by (simp add: lower_bound_def)
qed

lemma lower_bound_nth:
  assumes "sorted_names es" "i < length es"
  shows "lower_bound es (m_name (es ! i)) = i"
  using assms by (intro lower_bound_eqI) (auto intro: sorted_names_nth)

lemma skiplist_find_nth:
  assumes "sorted_names es" "i < length es"
  shows "skiplist_find es (m_name (es ! i)) = i"
  using assms by (simp add: skiplist_find_def lower_bound_nth)

lemma skiplist_find_le: "skiplist_find es n \<le> length es"
  by (simp add: skiplist_find_def Let_def)

lemma skiplist_find_name:
  "skiplist_find es n \<noteq> length es \<Longrightarrow> m_name (es ! skiplist_find es n) = n"
  by (auto simp: skiplist_find_def Let_def split: if_splits)

lemma skiplist_find_absent:
  assumes "sorted_names es"
  shows "skiplist_find es n = length es \<longleftrightarrow> n \<notin> m_name ` set es"
proof
  assume a: "skiplist_find es n = length es"
  show "n \<notin> m_name ` set es"
  proof
    assume "n \<in> m_name ` set es"
    then obtain i where "i < length es" "m_name (es ! i) = n"
      by (auto simp: in_set_conv_nth)
    with skiplist_find_nth [OF assms, of i] a show False by simp
  qed
next
  assume "n \<notin> m_name ` set es"
  then show "skiplist_find es n = length es"
    using skiplist_find_present [of es n] by blast
qed

lemma find_by_name:
  assumes "sorted_names es"
  shows "find (\<lambda>x. m_name x = n) es =
    (if skiplist_find es n = length es then None else Some (es ! skiplist_find es n))"
proof (cases "skiplist_find es n = length es")
  case True
  then have "n \<notin> m_name ` set es"
    using skiplist_find_absent [OF assms] by simp
  then have "find (\<lambda>x. m_name x = n) es = None"
    by (auto simp: find_None_iff)
  with True show ?thesis by simp
next
  case False
  let ?i = "skiplist_find es n"
  from False have i: "?i < length es" and nm: "m_name (es ! ?i) = n"
    using skiplist_find_le [of es n] skiplist_find_name [of es n] by auto
  have "m_name (es ! j) \<noteq> n" if "j < ?i" for j
    using sorted_names_nth [OF assms that i] nm by simp
  with i nm have "find (\<lambda>x. m_name x = n) es = Some (es ! ?i)"
    by (auto simp: find_Some_iff)
  with False show ?thesis by simp
qed

subsection \<open>The container: insertion and removal keep the order\<close>

lemma sorted_names_insert:
  assumes "sorted_names es" "m_name e \<notin> m_name ` set es"
  shows "sorted_names (take (lower_bound es (m_name e)) es @ e # drop (lower_bound es (m_name e)) es)"
proof -
  let ?k = "lower_bound es (m_name e)"
  have t: "sorted_wrt (<) (map m_name (take ?k es))"
    using assms(1) unfolding sorted_names_def take_map [symmetric] by (rule sorted_wrt_take)
  have d: "sorted_wrt (<) (map m_name (drop ?k es))"
    using assms(1) unfolding sorted_names_def drop_map [symmetric] by (rule sorted_wrt_drop)
  have lo: "\<forall>x \<in> set (take ?k es). m_name x < m_name e"
    using lower_bound_below [of _ es "m_name e"] by (auto simp: in_set_conv_nth)
  have hi: "\<forall>x \<in> set (drop ?k es). m_name e < m_name x"
  proof
    fix x assume x: "x \<in> set (drop ?k es)"
    then obtain j where j: "j < length es - ?k" "x = es ! (?k + j)"
      by (auto simp: in_set_conv_nth)
    then have "m_name e \<le> m_name x"
      using lower_bound_above [OF assms(1), of "m_name e" "?k + j"] by simp
    moreover have "x \<in> set es" using x by (rule in_set_dropD)
    then have "m_name x \<noteq> m_name e" using assms(2) by (metis image_eqI)
    ultimately show "m_name e < m_name x" by simp
  qed
  from t d lo hi show ?thesis
    unfolding sorted_names_def by (fastforce simp: sorted_wrt_append)
qed

lemma sorted_names_erase:
  assumes "sorted_names es"
  shows "sorted_names (skiplist_erase es i)"
proof -
  have t: "sorted_wrt (<) (map m_name (take i es))"
    using assms unfolding sorted_names_def take_map [symmetric] by (rule sorted_wrt_take)
  have d: "sorted_wrt (<) (map m_name (drop (Suc i) es))"
    using assms unfolding sorted_names_def drop_map [symmetric] by (rule sorted_wrt_drop)
  have "m_name x < m_name y" if "x \<in> set (take i es)" "y \<in> set (drop (Suc i) es)" for x y
  proof -
    from that(1) obtain a where a: "a < i" "a < length es" "x = es ! a"
      by (auto simp: in_set_conv_nth)
    from that(2) obtain b where b: "b < length es - Suc i" "y = es ! (Suc i + b)"
      by (auto simp: in_set_conv_nth)
    from a b sorted_names_nth [OF assms, of a "Suc i + b"] show ?thesis by simp
  qed
  with t d show ?thesis
    by (auto simp: sorted_names_def skiplist_erase_def sorted_wrt_append)
qed

lemma sorted_names_update:
  assumes "sorted_names es" "m_name e = m_name (es ! i)"
  shows "sorted_names (es[i := e])"
proof -
  have "map m_name (es[i := e]) = map m_name es"
    using assms(2) by (cases "i < length es") (simp_all add: map_update list_update_same_conv list_update_beyond)
  with assms(1) show ?thesis by (simp add: sorted_names_def)
qed

lemma skiplist_insert_absent:
  assumes "sorted_names es" "m_name e \<notin> m_name ` set es"
  shows "skiplist_insert es e =
    (take (lower_bound es (m_name e)) es @ e # drop (lower_bound es (m_name e)) es, True)"
  using assms by (simp add: skiplist_insert_def skiplist_find_absent Let_def)

lemma skiplist_reinsert:
  assumes "sorted_names es" "i < length es" "m_name e = m_name (es ! i)"
  shows "skiplist_insert (skiplist_erase es i) e = (es[i := e], True)"
proof -
  let ?es1 = "skiplist_erase es i"
  have len: "length ?es1 = length es - 1"
    using assms(2) by (simp add: skiplist_erase_def)
  have nth1: "?es1 ! j = (if j < i then es ! j else es ! Suc j)" if "j < length ?es1" for j
    using that assms(2) by (auto simp: skiplist_erase_def nth_append min_def)
  have s1: "sorted_names ?es1"
    using assms(1) by (rule sorted_names_erase)
  have lb: "lower_bound ?es1 (m_name e) = i"
  proof (rule lower_bound_eqI)
    show "i \<le> length ?es1" using assms(2) len by simp
    show "m_name (?es1 ! j) < m_name e" if "j < i" for j
      using that assms nth1 [of j] len sorted_names_nth [of es j i] by simp
    show "m_name e \<le> m_name (?es1 ! i)" if "i < length ?es1"
      using that assms nth1 [of i] len sorted_names_nth_le [of es i "Suc i"] by simp
  qed
  have "m_name e \<notin> m_name ` set ?es1"
  proof
    assume "m_name e \<in> m_name ` set ?es1"
    then obtain j where j: "j < length ?es1" "m_name (?es1 ! j) = m_name e"
      by (auto simp: in_set_conv_nth)
    show False
    proof (cases "j < i")
      case True
      with j assms nth1 [of j] sorted_names_nth [of es j i] show False by simp
    next
      case False
      with j len have "i < Suc j" "Suc j < length es" by simp_all
      from sorted_names_nth [OF assms(1) this] j False assms(3) nth1 [of j] show False by simp
    qed
  qed
  then have "skiplist_insert ?es1 e = (take i ?es1 @ e # drop i ?es1, True)"
    using skiplist_insert_absent [OF s1] lb by simp
  moreover have "take i ?es1 @ e # drop i ?es1 = es[i := e]"
    using assms(2) by (simp add: skiplist_erase_def upd_conv_take_nth_drop min_def)
  ultimately show ?thesis by simp
qed

subsection \<open>A window that cannot shrink\<close>

lemma rightmostLoop_returns_not_stuck:
  assumes "rightmostLoop interest hash es boundary last' = Some r"
  shows "\<not> stuckWindow interest es boundary last'"
  apply (rule rightmostLoop.raw_induct
      [where P = "\<lambda>i h xs b l r. \<not> stuckWindow i xs b l", OF _ assms])
  subgoal premises prems for f i h xs b l r
  proof
    assume a: "stuckWindow i xs b l"
    then have l0: "l \<noteq> 0"
      and c: "\<not> (l - 1 = b \<and> m_status (xs ! (l - 1)) \<noteq> DELETED)"
      and sk: "skipDeleted xs (lower_bound xs
        (getPrefix (m_name (xs ! (l - 1))) (length (getName i) + 1))) = l"
      by (simp_all add: stuckWindow_def)
    have fi: "find_if i h xs l l = Inr l"
      by (simp add: find_if.simps)
    have "f i h xs b l = Some r"
      using prems(2) unfolding Let_def if_not_P [OF l0] if_not_P [OF c] sk fi by simp
    then have "\<not> stuckWindow i xs b l"
      by (rule prems(1))
    with a show False by blast
  qed
  done

lemma rightmostLoop_stuck:
  assumes "stuckWindow interest es boundary last'"
  shows "rightmostLoop interest hash es boundary last' = None"
proof (cases "rightmostLoop interest hash es boundary last'")
  case None
  then show ?thesis .
next
  case (Some r)
  from rightmostLoop_returns_not_stuck [OF this] assms show ?thesis by blast
qed

subsection \<open>erase and insert on any container\<close>

lemma skiplist_erase_subset: "set (skiplist_erase es i) \<subseteq> set es"
  unfolding skiplist_erase_def
  using set_take_subset [of i es] set_drop_subset [of "Suc i" es] by auto

lemma skiplist_insert_set:
  "set (fst (skiplist_insert es e)) \<subseteq> insert e (set es)"
proof -
  have "set (take i es @ e # drop i es) = insert e (set es)" for i
    using append_take_drop_id [of i es]
    by (metis Un_insert_right set_append list.simps(15))
  then show ?thesis
    by (auto simp: skiplist_insert_def Let_def)
qed

lemma erase_names:
  "m_name ` set (m_skipList (snd (erase s n))) \<subseteq> m_name ` set (m_skipList s)"
proof (cases "skiplist_find (m_skipList s) n = length (m_skipList s)")
  case True
  then show ?thesis by (simp add: erase_def)
next
  case False
  let ?es = "m_skipList s"
  let ?i = "skiplist_find ?es n"
  let ?r = "(?es ! ?i)\<lparr>m_status := DELETED\<rparr>"
  from False have i: "?i < length ?es"
    by (auto simp: skiplist_find_def Let_def split: if_splits)
  have "m_skipList (snd (erase s n)) = fst (skiplist_insert (skiplist_erase ?es ?i) ?r)"
    using False by (simp add: erase_def Let_def split: prod.splits)
  moreover have "set (fst (skiplist_insert (skiplist_erase ?es ?i) ?r)) \<subseteq> insert ?r (set ?es)"
    using skiplist_insert_set [of "skiplist_erase ?es ?i" ?r] skiplist_erase_subset [of ?es ?i]
    by blast
  moreover have "m_name ?r \<in> m_name ` set ?es"
    using i by (simp add: image_iff) (metis nth_mem)
  ultimately show ?thesis by auto
qed

lemma insertEntry_absent:
  assumes "m_name e \<notin> m_name ` set (m_skipList s)"
  shows "fst (insertEntry s e) = Inr True"
proof -
  have "skiplist_find (m_skipList s) (m_name e) = length (m_skipList s)"
    using assms skiplist_find_present by blast
  then show ?thesis
    by (simp add: insertEntry_def skiplist_insert_def Let_def)
qed

lemma max_word64: "(- 1 :: 64 word) = 18446744073709551615"
  by simp

subsection \<open>The container as a map from names to entries\<close>

lemma lookupName_Some_iff:
  assumes "sorted_names es"
  shows "lookupName es n = Some x \<longleftrightarrow> x \<in> set es \<and> m_name x = n"
proof
  assume "lookupName es n = Some x"
  then show "x \<in> set es \<and> m_name x = n"
    by (auto simp: lookupName_def find_Some_iff)
next
  assume a: "x \<in> set es \<and> m_name x = n"
  then obtain i where i: "i < length es" "es ! i = x"
    by (auto simp: in_set_conv_nth)
  with a have "skiplist_find es n = i"
    using skiplist_find_nth [OF assms, of i] by simp
  with i show "lookupName es n = Some x"
    by (simp add: lookupName_def find_by_name [OF assms])
qed

lemma lookupName_None_iff: "lookupName es n = None \<longleftrightarrow> n \<notin> m_name ` set es"
  by (auto simp: lookupName_def find_None_iff)

lemma lookupName_find:
  assumes "sorted_names es"
  shows "lookupName es n =
    (if skiplist_find es n = length es then None else Some (es ! skiplist_find es n))"
  unfolding lookupName_def by (rule find_by_name [OF assms])

lemma lookupName_eqI:
  assumes "sorted_names es" "sorted_names es'"
    and "\<And>x. (x \<in> set es' \<and> m_name x = n) = (x \<in> set es \<and> m_name x = n)"
  shows "lookupName es' n = lookupName es n"
proof (cases "lookupName es n")
  case None
  then have "n \<notin> m_name ` set es" by (simp add: lookupName_None_iff)
  with assms(3) have "n \<notin> m_name ` set es'" by blast
  then have "lookupName es' n = None" by (simp add: lookupName_None_iff)
  with None show ?thesis by simp
next
  case (Some x)
  then have "x \<in> set es \<and> m_name x = n"
    using assms(1) by (simp add: lookupName_Some_iff)
  then have "x \<in> set es' \<and> m_name x = n"
    using assms(3) by blast
  then have "lookupName es' n = Some x"
    using assms(2) by (simp add: lookupName_Some_iff)
  with Some show ?thesis by simp
qed

lemma stored_insert:
  assumes "sorted_names (m_skipList s)" "m_name e \<notin> m_name ` set (m_skipList s)"
    and "es' = take (lower_bound (m_skipList s) (m_name e)) (m_skipList s) @
           e # drop (lower_bound (m_skipList s) (m_name e)) (m_skipList s)"
  shows "stored s e (s\<lparr>m_skipList := es', m_size := z\<rparr>)"
proof -
  let ?es = "m_skipList s"
  have s': "sorted_names es'"
    unfolding assms(3) using assms(1,2) by (rule sorted_names_insert)
  have set': "set es' = insert e (set ?es)"
    unfolding assms(3) using append_take_drop_id [of "lower_bound ?es (m_name e)" ?es]
    by (metis Un_insert_right set_append list.simps(15))
  have "lookupName es' (m_name e) = Some e"
    using s' set' by (simp add: lookupName_Some_iff)
  moreover have "lookupName es' m = lookupName ?es m" if "m \<noteq> m_name e" for m
    using assms(1) s' that set' by (intro lookupName_eqI) auto
  ultimately show ?thesis
    using s' by (simp add: stored_def)
qed

lemma stored_update:
  assumes "sorted_names (m_skipList s)" "i < length (m_skipList s)"
    and "m_name e = m_name (m_skipList s ! i)"
  shows "stored s e (s\<lparr>m_skipList := (m_skipList s)[i := e], m_size := z\<rparr>)"
proof -
  let ?es = "m_skipList s"
  let ?es' = "?es[i := e]"
  have s': "sorted_names ?es'"
    using assms(1,3) by (rule sorted_names_update)
  have mem: "e \<in> set ?es'"
    using assms(2) by (simp add: set_update_memI)
  have "lookupName ?es' (m_name e) = Some e"
    using s' mem by (simp add: lookupName_Some_iff)
  moreover have "lookupName ?es' m = lookupName ?es m" if "m \<noteq> m_name e" for m
  proof (rule lookupName_eqI [OF assms(1) s'])
    fix x
    show "(x \<in> set ?es' \<and> m_name x = m) = (x \<in> set ?es \<and> m_name x = m)"
    proof
      assume a: "x \<in> set ?es' \<and> m_name x = m"
      then have "x \<in> insert e (set ?es)"
        using set_update_subset_insert [of ?es i e] by blast
      with a that show "x \<in> set ?es \<and> m_name x = m" by auto
    next
      assume a: "x \<in> set ?es \<and> m_name x = m"
      then obtain j where j: "j < length ?es" "?es ! j = x"
        by (auto simp: in_set_conv_nth)
      with a that assms(3) have "j \<noteq> i" by auto
      with j have "?es' ! j = x" "j < length ?es'" by simp_all
      then have "x \<in> set ?es'" by (metis nth_mem)
      with a show "x \<in> set ?es' \<and> m_name x = m" by simp
    qed
  qed
  ultimately show ?thesis
    using s' by (simp add: stored_def)
qed

subsection \<open>insert and erase on a sorted container\<close>

lemma insertEntry_sorted:
  assumes "sorted_names (m_skipList s)"
  shows "case lookupName (m_skipList s) (m_name e) of
      None \<Rightarrow>
        fst (insertEntry s e) = Inr True \<and> stored s e (snd (insertEntry s e)) \<and>
        m_size (snd (insertEntry s e)) = m_size s + 1
    | Some x \<Rightarrow>
        if m_status x = DELETED
        then fst (insertEntry s e) = Inr True \<and>
          stored s (e\<lparr>m_status := INSERTED\<rparr>) (snd (insertEntry s e)) \<and>
          m_size (snd (insertEntry s e)) = m_size s + 1
        else insertEntry s e = (Inr False, s)"
proof (cases "skiplist_find (m_skipList s) (m_name e) = length (m_skipList s)")
  case True
  let ?es = "m_skipList s"
  let ?k = "lower_bound ?es (m_name e)"
  from True have abs: "m_name e \<notin> m_name ` set ?es"
    using skiplist_find_absent [OF assms] by simp
  have ie: "insertEntry s e =
      (Inr True, s\<lparr>m_skipList := take ?k ?es @ e # drop ?k ?es, m_size := m_size s + 1\<rparr>)"
    using True by (simp add: insertEntry_def Let_def skiplist_insert_absent [OF assms abs])
  have "stored s e (s\<lparr>m_skipList := take ?k ?es @ e # drop ?k ?es, m_size := m_size s + 1\<rparr>)"
    using assms abs by (rule stored_insert) simp
  with ie True show ?thesis
    by (simp add: lookupName_find [OF assms])
next
  case False
  let ?es = "m_skipList s"
  let ?i = "skiplist_find ?es (m_name e)"
  from False have i: "?i < length ?es" and nm: "m_name (?es ! ?i) = m_name e"
    using skiplist_find_le [of ?es "m_name e"] skiplist_find_name [of ?es "m_name e"] by auto
  have lk: "lookupName ?es (m_name e) = Some (?es ! ?i)"
    using False by (simp add: lookupName_find [OF assms])
  show ?thesis
  proof (cases "m_status (?es ! ?i) = DELETED")
    case True
    let ?e' = "e\<lparr>m_status := INSERTED\<rparr>"
    have re: "skiplist_insert (skiplist_erase ?es ?i) ?e' = (?es[?i := ?e'], True)"
      using assms i nm by (intro skiplist_reinsert) simp_all
    have ie: "insertEntry s e = (Inr True, s\<lparr>m_skipList := ?es[?i := ?e'], m_size := m_size s + 1\<rparr>)"
      using False True re by (simp add: insertEntry_def Let_def)
    have "stored s ?e' (s\<lparr>m_skipList := ?es[?i := ?e'], m_size := m_size s + 1\<rparr>)"
      using assms i nm by (intro stored_update) simp_all
    with ie lk True show ?thesis by simp
  next
    case dl: False
    have "insertEntry s e = (Inr False, s)"
      using False dl by (simp add: insertEntry_def Let_def)
    with lk dl show ?thesis by simp
  qed
qed

lemma erase_sorted:
  assumes "sorted_names (m_skipList s)"
  shows "case lookupName (m_skipList s) n of
      None \<Rightarrow> erase s n = (Inr False, s)
    | Some x \<Rightarrow>
        fst (erase s n) = Inr True \<and> stored s (x\<lparr>m_status := DELETED\<rparr>) (snd (erase s n)) \<and>
        m_size (snd (erase s n)) = m_size s - 1"
proof (cases "skiplist_find (m_skipList s) n = length (m_skipList s)")
  case True
  then show ?thesis
    by (simp add: lookupName_find [OF assms] erase_def)
next
  case False
  let ?es = "m_skipList s"
  let ?i = "skiplist_find ?es n"
  let ?r = "(?es ! ?i)\<lparr>m_status := DELETED\<rparr>"
  from False have i: "?i < length ?es" and nm: "m_name (?es ! ?i) = n"
    using skiplist_find_le [of ?es n] skiplist_find_name [of ?es n] by auto
  have re: "skiplist_insert (skiplist_erase ?es ?i) ?r = (?es[?i := ?r], True)"
    using assms i by (intro skiplist_reinsert) simp_all
  have er: "erase s n = (Inr True, s\<lparr>m_skipList := ?es[?i := ?r], m_size := m_size s - 1\<rparr>)"
    using False re by (simp add: erase_def Let_def)
  have "stored s ?r (s\<lparr>m_skipList := ?es[?i := ?r], m_size := m_size s - 1\<rparr>)"
    using assms i by (intro stored_update) simp_all
  with er False show ?thesis
    by (simp add: lookupName_find [OF assms])
qed

subsection \<open>Scans that start at the lower bound\<close>

lemma find_append_none: "(\<And>x. x \<in> set xs \<Longrightarrow> \<not> P x) \<Longrightarrow> find P (xs @ ys) = find P ys"
  by (induction xs) auto

lemma find_filter: "find P (filter Q xs) = find (\<lambda>x. Q x \<and> P x) xs"
  by (induction xs) auto

lemma find_drop_lower_bound:
  assumes "\<And>e. P e \<Longrightarrow> isPrefixOf n (m_name e)"
  shows "find P es = find P (drop (lower_bound es n) es)"
proof -
  let ?k = "lower_bound es n"
  have "\<not> P x" if "x \<in> set (take ?k es)" for x
  proof
    assume "P x"
    then have "n \<le> m_name x" using assms isPrefixOf_le by blast
    moreover from that obtain i where "i < ?k" "x = es ! i"
      by (auto simp: in_set_conv_nth)
    then have "m_name x < n" using lower_bound_below by blast
    ultimately show False by simp
  qed
  then have "find P (take ?k es @ drop ?k es) = find P (drop ?k es)"
    by (rule find_append_none)
  then show ?thesis by simp
qed

lemma no_descendant_after:
  assumes "sorted_names es" "lower_bound es n \<le> i" "i \<le> j" "j < length es"
    and "\<not> isPrefixOf n (m_name (es ! i))"
  shows "\<not> isPrefixOf n (m_name (es ! j))"
proof
  assume "isPrefixOf n (m_name (es ! j))"
  moreover have "n \<le> m_name (es ! i)"
    using assms by (intro lower_bound_above) auto
  moreover have "m_name (es ! i) \<le> m_name (es ! j)"
    using assms by (intro sorted_names_nth_le)
  ultimately have "isPrefixOf n (m_name (es ! i))"
    by (rule isPrefixOf_between)
  with assms(5) show False by simp
qed

lemma find_none_after:
  assumes "sorted_names es" "lower_bound es n \<le> i" "i < length es"
    and "\<not> isPrefixOf n (m_name (es ! i))"
    and "\<And>e. P e \<Longrightarrow> isPrefixOf n (m_name e)"
  shows "find P (drop i es) = None"
proof -
  have "\<not> P x" if "x \<in> set (drop i es)" for x
  proof -
    from that obtain j where "j < length es - i" "x = es ! (i + j)"
      by (auto simp: in_set_conv_nth)
    then have "\<not> isPrefixOf n (m_name x)"
      using no_descendant_after [OF assms(1,2) _ _ assms(4), of "i + j"] by simp
    with assms(5) show ?thesis by blast
  qed
  then show ?thesis by (auto simp: find_None_iff)
qed

lemma findFirstEntry_sorted:
  assumes "sorted_names es" "lower_bound es n \<le> i"
  shows "findFirstEntry es n i = foundOf (firstLiveDescendant (drop i es) n)"
  using assms
proof (induction es n i rule: findFirstEntry.induct)
  case (1 es pfx iter)
  show ?case
  proof (cases "iter < length es")
    case False
    then show ?thesis
      by (simp add: findFirstEntry.simps [of es pfx iter] firstLiveDescendant_def foundOf_def)
  next
    case True
    then have d: "drop iter es = es ! iter # drop (Suc iter) es"
      by (simp add: Cons_nth_drop_Suc)
    show ?thesis
    proof (cases "m_status (es ! iter) = DELETED")
      case del: True
      have "findFirstEntry es pfx (Suc iter) = foundOf (firstLiveDescendant (drop (Suc iter) es) pfx)"
        using True del "1.prems" by (intro "1.IH") auto
      with True del show ?thesis
        by (simp add: findFirstEntry.simps [of es pfx iter] d firstLiveDescendant_def)
    next
      case live: False
      show ?thesis
      proof (cases "isPrefixOf pfx (m_name (es ! iter))")
        case True
        with \<open>iter < length es\<close> live show ?thesis
          by (simp add: findFirstEntry.simps [of es pfx iter] d firstLiveDescendant_def foundOf_def)
      next
        case False
        have "firstLiveDescendant (drop iter es) pfx = None"
          unfolding firstLiveDescendant_def
          using "1.prems" \<open>iter < length es\<close> False by (intro find_none_after [where n = pfx]) auto
        with \<open>iter < length es\<close> live False show ?thesis
          by (simp add: findFirstEntry.simps [of es pfx iter] foundOf_def)
      qed
    qed
  qed
qed

lemma find_name_sorted:
  assumes "sorted_names (m_skipList s)"
  shows "find_name s n = foundOf (firstLiveDescendant (m_skipList s) n)"
proof -
  let ?es = "m_skipList s"
  let ?k = "lower_bound ?es n"
  have f: "firstLiveDescendant ?es n = firstLiveDescendant (drop ?k ?es) n"
    unfolding firstLiveDescendant_def by (rule find_drop_lower_bound) simp
  show ?thesis
  proof (cases "?k = length ?es")
    case True
    then have "firstLiveDescendant (drop ?k ?es) n = None"
      by (simp add: firstLiveDescendant_def)
    with True show ?thesis
      by (simp add: find_name_def Let_def f foundOf_def)
  next
    case False
    then show ?thesis
      using findFirstEntry_sorted [OF assms, of n ?k] by (simp add: find_name_def Let_def f)
  qed
qed

lemma lookup_position:
  assumes "sorted_names es" "lookupName es n = Some x"
  shows "lower_bound es n < length es \<and> es ! lower_bound es n = x"
proof -
  from assms have "x \<in> set es" "m_name x = n"
    by (simp_all add: lookupName_Some_iff)
  then obtain i where "i < length es" "es ! i = x"
    by (auto simp: in_set_conv_nth)
  with \<open>m_name x = n\<close> lower_bound_nth [OF assms(1), of i] show ?thesis by auto
qed

lemma find_name_exact:
  assumes "sorted_names (m_skipList s)" "lookupName (m_skipList s) n = Some x"
    and "m_status x \<noteq> DELETED"
  shows "find_name s n = (m_id x, n)"
proof -
  from lookup_position [OF assms(1,2)] have k: "lower_bound (m_skipList s) n < length (m_skipList s)"
    and x: "m_skipList s ! lower_bound (m_skipList s) n = x"
    by simp_all
  have "m_name x = n"
    using assms(1,2) by (simp add: lookupName_Some_iff)
  with k x assms(3) show ?thesis
    by (simp add: find_name_def Let_def findFirstEntry.simps [of _ _ "lower_bound (m_skipList s) n"])
qed

lemma getStatus_exact:
  assumes "sorted_names (m_skipList s)" "lookupName (m_skipList s) n = Some x"
  shows "getStatus s n = m_status x"
proof -
  from lookup_position [OF assms] have k: "lower_bound (m_skipList s) n < length (m_skipList s)"
    and x: "m_skipList s ! lower_bound (m_skipList s) n = x"
    by simp_all
  have "m_name x = n"
    using assms by (simp add: lookupName_Some_iff)
  with k x show ?thesis
    by (simp add: getStatus_def Let_def)
qed

lemma getStatus_sorted:
  assumes "sorted_names (m_skipList s)"
  shows "getStatus s n = statusOf (firstDescendant (m_skipList s) n)"
proof -
  let ?es = "m_skipList s"
  let ?k = "lower_bound ?es n"
  have f: "firstDescendant ?es n = firstDescendant (drop ?k ?es) n"
    unfolding firstDescendant_def by (rule find_drop_lower_bound) simp
  show ?thesis
  proof (cases "?k < length ?es")
    case False
    then have k: "?k = length ?es" using lower_bound_le [of ?es n] by simp
    then have "firstDescendant (drop ?k ?es) n = None"
      by (simp add: firstDescendant_def)
    with k show ?thesis
      by (simp add: getStatus_def Let_def f statusOf_def)
  next
    case True
    then have d: "drop ?k ?es = ?es ! ?k # drop (Suc ?k) ?es"
      by (simp add: Cons_nth_drop_Suc)
    show ?thesis
    proof (cases "isPrefixOf n (m_name (?es ! ?k))")
      case p: True
      have "firstDescendant (drop ?k ?es) n = Some (?es ! ?k)"
        unfolding d using p by (simp add: firstDescendant_def)
      with True p show ?thesis
        by (simp add: getStatus_def Let_def f statusOf_def)
    next
      case p: False
      have "firstDescendant (drop ?k ?es) n = None"
        unfolding firstDescendant_def using assms True p
        by (intro find_none_after [where n = n]) auto
      with True p show ?thesis
        by (simp add: getStatus_def Let_def f statusOf_def)
    qed
  qed
qed

lemma hasData_sorted:
  assumes "sorted_names (m_skipList s)"
  shows "hasData sha256 s d =
    (case lookupName (m_skipList s) (getFullName d) of
       None \<Rightarrow> False
     | Some x \<Rightarrow> m_status x \<noteq> DELETED)"
  by (simp add: hasData_def Entry_data_def lookupName_find [OF assms] Let_def)

subsection \<open>The prune\<close>

lemma removeDeletedLoop_filter:
  "removeDeletedLoop es i = take i es @ filter (\<lambda>e. m_status e \<noteq> DELETED) (drop i es)"
proof (induction es i rule: removeDeletedLoop.induct)
  case (1 es iter)
  show ?case
  proof (cases "iter < length es")
    case False
    then show ?thesis
      by (simp add: removeDeletedLoop.simps [of es iter])
  next
    case True
    then have d: "drop iter es = es ! iter # drop (Suc iter) es"
      by (simp add: Cons_nth_drop_Suc)
    show ?thesis
    proof (cases "m_status (es ! iter) = DELETED")
      case del: True
      have "removeDeletedLoop es iter = removeDeletedLoop (skiplist_erase es iter) iter"
        using True del by (simp add: removeDeletedLoop.simps [of es iter])
      also have "\<dots> = take iter (skiplist_erase es iter) @
          filter (\<lambda>e. m_status e \<noteq> DELETED) (drop iter (skiplist_erase es iter))"
        using True del by (rule "1.IH")
      also have "take iter (skiplist_erase es iter) = take iter es"
        using True by (simp add: skiplist_erase_def min_def)
      also have "drop iter (skiplist_erase es iter) = drop (Suc iter) es"
        using True by (simp add: skiplist_erase_def min_def)
      finally show ?thesis
        using del by (simp add: d)
    next
      case live: False
      have "removeDeletedLoop es iter = removeDeletedLoop es (Suc iter)"
        using True live by (simp add: removeDeletedLoop.simps [of es iter])
      also have "\<dots> = take (Suc iter) es @
          filter (\<lambda>e. m_status e \<noteq> DELETED) (drop (Suc iter) es)"
        using True live by (rule "1.IH")
      finally show ?thesis
        using True live by (simp add: d take_Suc_conv_app_nth)
    qed
  qed
qed

lemma removeDeletedEntry_filter:
  "m_skipList (removeDeletedEntry s) = filter (\<lambda>e. m_status e \<noteq> DELETED) (m_skipList s)"
  by (simp add: removeDeletedEntry_def removeDeletedLoop_filter)

lemma sorted_names_filter: "sorted_names es \<Longrightarrow> sorted_names (filter P es)"
  unfolding sorted_names_def sorted_wrt_map by (rule sorted_wrt_filter)

subsection \<open>The outcome of an insert\<close>

lemma insertEntry_no_error: "fst (insertEntry s e) \<noteq> Inl err"
  by (simp add: insertEntry_def Let_def split: prod.splits)

lemma insertOutcome_insertEntry:
  assumes "sorted_names (m_skipList s)"
  shows "insertOutcome s n h ident
    (if isFull s then (Inl IndexFull, s)
     else insertEntry s \<lparr>m_name = n, m_keyLocatorHash = h, m_id = ident, m_status = EXISTED\<rparr>)"
  using insertEntry_sorted [OF assms, of "\<lparr>m_name = n, m_keyLocatorHash = h, m_id = ident, m_status = EXISTED\<rparr>"]
  by (auto simp: insertOutcome_def isFull_def split: option.splits)

text \<open>
  On an index whose container is in order, \<^verbatim>\<open>insert\<close> in either overload raises the
  capacity error exactly when \<^verbatim>\<open>m_size\<close> equals the maximum, and then leaves the index
  as it was; otherwise it returns true with the size incremented when the name was absent
  (a fresh entry with the given name, hash and id stored, status EXISTED) or its entry
  DELETED (the entry with the new hash and id stored in its place, status INSERTED), and
  returns false with the index unchanged when a live entry holds the name. Where
  \<^verbatim>\<open>m_size\<close> is the number of entries that are not DELETED, the error is raised
  exactly when that number equals the maximum.
\<close>

lemma insert_outcome:
  assumes "sorted_names (m_skipList s)"
  shows "(fst (insert_name s n ident keyLocatorHash) = Inl IndexFull) = (m_size s = m_maxPackets s) \<and>
    insertOutcome s n keyLocatorHash ident (insert_name s n ident keyLocatorHash) \<and>
    (fst (insert_data sha256 s d ident) = Inl IndexFull) = (m_size s = m_maxPackets s) \<and>
    insertOutcome s (getFullName d) (map_option sha256 (getSignatureKeyLocator d)) ident
      (insert_data sha256 s d ident) \<and>
    (unat (m_size s) = liveCount s \<longrightarrow>
      (fst (insert_name s n ident keyLocatorHash) = Inl IndexFull)
        = (liveCount s = unat (m_maxPackets s)) \<and>
      (fst (insert_data sha256 s d ident) = Inl IndexFull)
        = (liveCount s = unat (m_maxPackets s)))"
proof -
  have f1: "(fst (insert_name s n ident keyLocatorHash) = Inl IndexFull) = (m_size s = m_maxPackets s)"
    using insertEntry_no_error [of s "Entry_hash n keyLocatorHash ident" IndexFull]
    by (simp add: insert_name_def isFull_def)
  have f2: "(fst (insert_data sha256 s d ident) = Inl IndexFull) = (m_size s = m_maxPackets s)"
    using insertEntry_no_error [of s "Entry_data sha256 d ident" IndexFull]
    by (simp add: insert_data_def isFull_def)
  have o1: "insertOutcome s n keyLocatorHash ident (insert_name s n ident keyLocatorHash)"
    using insertOutcome_insertEntry [OF assms, of n keyLocatorHash ident]
    by (auto simp: insert_name_def Entry_hash_def split: if_splits)
  have o2: "insertOutcome s (getFullName d) (map_option sha256 (getSignatureKeyLocator d)) ident
      (insert_data sha256 s d ident)"
    using insertOutcome_insertEntry [OF assms, of "getFullName d" "map_option sha256 (getSignatureKeyLocator d)" ident]
    by (auto simp: insert_data_def Entry_data_def map_option_case split: if_splits)
  have lv: "(m_size s = m_maxPackets s) = (liveCount s = unat (m_maxPackets s))"
    if "unat (m_size s) = liveCount s"
    using that by (auto simp: word_unat_eq_iff)
  from f1 f2 o1 o2 lv show ?thesis by simp
qed

lemma insert_outcome_example:
  "sorted_names (m_skipList (Index 2)) \<and>
   fst (insert_name (Index 2) nameA 1 None) = Inr True \<and>
   lookupName (m_skipList (snd (insert_name (Index 2) nameA 1 None))) nameA
     = Some \<lparr>m_name = nameA, m_keyLocatorHash = None, m_id = 1, m_status = EXISTED\<rparr> \<and>
   m_size (snd (insert_name (Index 2) nameA 1 None)) = 1"
proof -
  have h: "sorted_names (m_skipList (Index 2))"
    by (simp add: Index_def sorted_names_def)
  from insert_outcome [OF h, where n = nameA and ident = 1 and keyLocatorHash = None
      and ?sha256.0 = "\<lambda>k::buffer. k" and d = "\<lparr>getFullName = nameA, getSignatureKeyLocator = None\<rparr>"]
  have "insertOutcome (Index 2) nameA None 1 (insert_name (Index 2) nameA 1 None)"
    by blast
  then show ?thesis
    using h by (simp add: insertOutcome_def Index_def lookupName_def stored_def)
qed

subsection \<open>A sample index\<close>

lemma indexA_A1_value:
  "indexA_A1 =
     \<lparr>m_skipList =
        [\<lparr>m_name = nameA, m_keyLocatorHash = None, m_id = 1, m_status = EXISTED\<rparr>,
         \<lparr>m_name = nameA1, m_keyLocatorHash = None, m_id = 2, m_status = EXISTED\<rparr>],
      m_maxPackets = 10, m_size = 2\<rparr>"
  by (simp add: indexA_A1_def index_defs skiplist_defs sample_defs less_component_def)

lemma sorted_indexA_A1: "sorted_names (m_skipList indexA_A1)"
  by (simp add: indexA_A1_value sorted_names_def sample_defs)

subsection \<open>A successful insert\<close>

lemma insert_name_success:
  assumes "sorted_names (m_skipList s)" "fst (insert_name s n ident h) = Inr True"
  shows "\<exists>e. stored s e (snd (insert_name s n ident h)) \<and> m_name e = n \<and> m_id e = ident \<and>
    m_status e \<noteq> DELETED"
proof -
  let ?e = "Entry_hash n h ident"
  have nf: "\<not> isFull s"
    using assms(2) by (auto simp: insert_name_def)
  then have i: "insert_name s n ident h = insertEntry s ?e"
    by (simp add: insert_name_def)
  have nm: "m_name ?e = n" by (simp add: Entry_hash_def)
  show ?thesis
  proof (cases "lookupName (m_skipList s) n")
    case None
    with insertEntry_sorted [OF assms(1), of ?e] have "stored s ?e (snd (insert_name s n ident h))"
      by (simp add: i nm)
    then show ?thesis
      by (intro exI [of _ ?e]) (simp add: Entry_hash_def)
  next
    case (Some x)
    show ?thesis
    proof (cases "m_status x = DELETED")
      case True
      with Some insertEntry_sorted [OF assms(1), of ?e]
      have "stored s (?e\<lparr>m_status := INSERTED\<rparr>) (snd (insert_name s n ident h))"
        by (simp add: i nm)
      then show ?thesis
        by (intro exI [of _ "?e\<lparr>m_status := INSERTED\<rparr>"]) (simp add: Entry_hash_def)
    next
      case False
      with Some insertEntry_sorted [OF assms(1), of ?e] assms(2) show ?thesis
        by (simp add: i nm)
    qed
  qed
qed

subsection \<open>The operations keep the order\<close>

lemma erase_sorted_names:
  assumes "sorted_names (m_skipList s)"
  shows "sorted_names (m_skipList (snd (erase s n)))"
  using erase_sorted [OF assms, of n] assms
  by (cases "lookupName (m_skipList s) n") (simp_all add: stored_def)

lemma insertEntry_sorted_names:
  assumes "sorted_names (m_skipList s)"
  shows "sorted_names (m_skipList (snd (insertEntry s e)))"
proof (cases "lookupName (m_skipList s) (m_name e)")
  case None
  with insertEntry_sorted [OF assms, of e] show ?thesis
    by (simp add: stored_def)
next
  case (Some x)
  with insertEntry_sorted [OF assms, of e] assms show ?thesis
    by (cases "m_status x = DELETED") (simp_all add: stored_def)
qed

lemma sorted_names_kept:
  shows "sorted_names (m_skipList (Index nMaxPackets))"
    and "sorted_names (m_skipList s) \<Longrightarrow>
      sorted_names (m_skipList (snd (insert_name s n ident keyLocatorHash)))"
    and "sorted_names (m_skipList s) \<Longrightarrow>
      sorted_names (m_skipList (snd (insert_data sha256 s d ident)))"
    and "sorted_names (m_skipList s) \<Longrightarrow> sorted_names (m_skipList (snd (erase s n)))"
    and "sorted_names (m_skipList s) \<Longrightarrow> sorted_names (m_skipList (removeDeletedEntry s))"
  by (simp_all add: Index_def sorted_names_def [of "[]"] insert_name_def insert_data_def
      insertEntry_sorted_names erase_sorted_names removeDeletedEntry_filter sorted_names_filter)

subsection \<open>The simple selectors and the leftmost scan\<close>

lemma matchesSimpleSelectors_satisfies:
  assumes "getPublisherPublicKeyLocator interest = None \<or> m_keyLocatorHash e \<noteq> None"
  shows "matchesSimpleSelectors interest (hashOf sha256 interest) e
    = Inr (satisfiesSelectors sha256 interest e)"
  using assms
  by (auto simp: matchesSimpleSelectors_def satisfiesSelectors_def hashOf_def Let_def
      split: option.splits)

lemma hashesPresent_nth:
  "hashesPresent interest es \<Longrightarrow> i < length es \<Longrightarrow>
    getPublisherPublicKeyLocator interest = None \<or> m_keyLocatorHash (es ! i) \<noteq> None"
  by (auto simp: hashesPresent_def list_all_length)

lemma satisfies_prefix:
  "satisfiesSelectors sha256 interest e \<Longrightarrow> isPrefixOf (getName interest) (m_name e)"
  by (simp add: satisfiesSelectors_def)


lemma leftmostLoop_sorted:
  assumes "sorted_names es" "hashesPresent interest es" "lower_bound es (getName interest) \<le> it"
  shows "leftmostLoop interest (hashOf sha256 interest) es it
    = Inr (foundOf (find (satisfiesSelectors sha256 interest) (drop it es)))"
  using assms
proof (induction interest "hashOf sha256 interest" es it rule: leftmostLoop.induct)
  case (1 interest es it)
  let ?h = "hashOf sha256 interest"
  show ?case
  proof (cases "it < length es")
    case False
    then show ?thesis
      by (simp add: leftmostLoop.simps [of interest ?h es it] foundOf_def)
  next
    case True
    then have d: "drop it es = es ! it # drop (Suc it) es"
      by (simp add: Cons_nth_drop_Suc)
    have m: "matchesSimpleSelectors interest ?h (es ! it)
        = Inr (satisfiesSelectors sha256 interest (es ! it))"
      using hashesPresent_nth [OF "1.prems"(2) True] by (rule matchesSimpleSelectors_satisfies)
    show ?thesis
    proof (cases "m_status (es ! it) = DELETED")
      case del: True
      have "leftmostLoop interest ?h es (Suc it)
          = Inr (foundOf (find (satisfiesSelectors sha256 interest) (drop (Suc it) es)))"
        using True del "1.prems" by (intro "1.hyps"(1)) auto
      moreover have "\<not> satisfiesSelectors sha256 interest (es ! it)"
        using del by (simp add: satisfiesSelectors_def)
      ultimately show ?thesis
        using True del by (simp add: leftmostLoop.simps [of interest ?h es it] d)
    next
      case live: False
      show ?thesis
      proof (cases "isPrefixOf (getName interest) (m_name (es ! it))")
        case False
        have "find (satisfiesSelectors sha256 interest) (drop it es) = None"
          using "1.prems"(1,3) True False
          by (intro find_none_after [where n = "getName interest"]) (auto dest: satisfies_prefix)
        with True live False show ?thesis
          by (simp add: leftmostLoop.simps [of interest ?h es it] foundOf_def)
      next
        case pre: True
        show ?thesis
        proof (cases "satisfiesSelectors sha256 interest (es ! it)")
          case True
          with \<open>it < length es\<close> live pre m show ?thesis
            by (simp add: leftmostLoop.simps [of interest ?h es it] d foundOf_def)
        next
          case False
          have "leftmostLoop interest ?h es (Suc it)
              = Inr (foundOf (find (satisfiesSelectors sha256 interest) (drop (Suc it) es)))"
            using \<open>it < length es\<close> live pre m False "1.prems"
            by (intro "1.hyps"(2)) auto
          with \<open>it < length es\<close> live pre m False show ?thesis
            by (simp add: leftmostLoop.simps [of interest ?h es it] d)
        qed
      qed
    qed
  qed
qed

lemma find_interest_leftmost:
  assumes "sorted_names (m_skipList s)" "hashesPresent interest (m_skipList s)"
    and "getChildSelector interest \<le> 0"
  shows "find_interest sha256 s interest
    = Some (Inr (foundOf (find (satisfiesSelectors sha256 interest) (m_skipList s))))"
proof -
  let ?es = "m_skipList s"
  let ?k = "lower_bound ?es (getName interest)"
  have f: "find (satisfiesSelectors sha256 interest) ?es
      = find (satisfiesSelectors sha256 interest) (drop ?k ?es)"
    by (rule find_drop_lower_bound) (rule satisfies_prefix)
  show ?thesis
  proof (cases "?k = length ?es")
    case True
    then have "find (satisfiesSelectors sha256 interest) (drop ?k ?es) = None"
      by simp
    with True show ?thesis
      by (simp add: find_interest_def f foundOf_def Let_def)
  next
    case False
    with assms(3) leftmostLoop_sorted [OF assms(1,2), of ?k sha256] show ?thesis
      by (simp add: find_interest_def selectChild_def f Let_def hashOf_def)
  qed
qed

subsection \<open>Skipping tombstones and scanning a window\<close>







subsection \<open>The successor of a name bounds its descendants\<close>











subsection \<open>One pass of the rightmost loop\<close>




subsection \<open>The rightmost loop: what it returns, and when it returns\<close>






section \<open>The claims\<close>

subsection \<open>C1: Rightmost disambiguation\<close>




subsection \<open>C2: Leftmost disambiguation\<close>

text \<open>
  C2. The claim: for every index and every query whose child selector is not positive,
  the find returns the least entry that satisfies the simple selectors, the hash of the
  entry equal to the digest of the publisher key locator among them, and the not-found
  pair when there is none. With \<^verbatim>\<open>/a/1\<close> stored without a hash and \<^verbatim>\<open>/a/2\<close> stored with
  the hash of the key locator, the query for \<^verbatim>\<open>/a\<close> with that key locator has \<^verbatim>\<open>/a/2\<close>
  as its least satisfying entry; the scan reaches \<^verbatim>\<open>/a/1\<close> first and dereferences its null
  hash. Where no hash is null the find is as the claim says (\<open>find_interest_leftmost\<close>).
\<close>

theorem find_leftmost_null_hash:
  "find_interest sha256 (indexA1_A2_keyed sha256 keyLocator) (keyInterest nameA (- 1) keyLocator)
     = Some (Inl NullPointer) \<and>
   foundOf (find (satisfiesSelectors sha256 (keyInterest nameA (- 1) keyLocator))
     (m_skipList (indexA1_A2_keyed sha256 keyLocator))) = (2, nameA2)"
proof -
  have v: "indexA1_A2_keyed sha256 keyLocator =
     \<lparr>m_skipList =
        [\<lparr>m_name = nameA1, m_keyLocatorHash = None, m_id = 1, m_status = EXISTED\<rparr>,
         \<lparr>m_name = nameA2, m_keyLocatorHash = Some (sha256 keyLocator), m_id = 2,
            m_status = EXISTED\<rparr>],
      m_maxPackets = 10, m_size = 2\<rparr>"
    by (simp add: indexA1_A2_keyed_def index_defs skiplist_defs sample_defs less_component_def)
  show ?thesis
    unfolding v
    by (simp add: find_interest_def selectChild_def leftmostLoop.simps matchesSimpleSelectors_def
        satisfiesSelectors_def keyInterest_def foundOf_def skiplist_defs sample_defs)
qed

subsection \<open>C3: The size bookkeeping\<close>

text \<open>
  C3. The claim: \<^verbatim>\<open>size\<close> equals the number of entries that are not DELETED and never
  exceeds the maximum, initially and after every operation, in particular after an erase
  of a name whose entry is already DELETED. \<^verbatim>\<open>Index::erase\<close> does not look at the
  status of the entry it finds: a second erase of the same name decrements \<^verbatim>\<open>m_size\<close>
  again, here from 0 to the largest 64-bit value, with no live entry in the index.
\<close>

theorem erase_twice_breaks_sizeInvariant:
  "sizeInvariant (Index 1) \<and>
   sizeInvariant (snd (insert_name (Index 1) nameA 1 None)) \<and>
   sizeInvariant (snd (erase (snd (insert_name (Index 1) nameA 1 None)) nameA)) \<and>
   fst (erase (snd (erase (snd (insert_name (Index 1) nameA 1 None)) nameA)) nameA) = Inr True \<and>
   m_size (snd (erase (snd (erase (snd (insert_name (Index 1) nameA 1 None)) nameA)) nameA)) = 18446744073709551615 \<and>
   liveCount (snd (erase (snd (erase (snd (insert_name (Index 1) nameA 1 None)) nameA)) nameA)) = 0 \<and>
   \<not> sizeInvariant (snd (erase (snd (erase (snd (insert_name (Index 1) nameA 1 None)) nameA)) nameA))"
  by (simp add: sizeInvariant_def liveCount_def index_defs skiplist_defs sample_defs
      max_word64)

subsection \<open>C4: Capacity after a soft delete\<close>

text \<open>
  C4, as the claim states it: with capacity 1, after one insert the index is full; after
  erasing that entry the claim expects the insert of a new name to raise the capacity
  error. It returns true: erase has decremented \<^verbatim>\<open>m_size\<close>, the only thing the
  capacity check reads.
\<close>

theorem insert_after_erase_counterexample:
  "fst (insert_name (Index 1) nameA 1 None) = Inr True \<and>
   fst (insert_name (snd (insert_name (Index 1) nameA 1 None)) nameB 2 None) = Inl IndexFull \<and>
   fst (erase (snd (insert_name (Index 1) nameA 1 None)) nameA) = Inr True \<and>
   fst (insert_name (snd (erase (snd (insert_name (Index 1) nameA 1 None)) nameA)) nameB 2 None)
     = Inr True"
  by (simp add: index_defs skiplist_defs sample_defs less_component_def)

text \<open>
  C4, amended: when the index is full and erase soft-deletes an entry, the size is
  decremented and an insert of a name that is not in the index succeeds at once, with no
  prune; the prune changes neither the size nor the maximum.
\<close>

theorem insert_after_erase_succeeds:
  assumes "isFull s"
    and "fst (erase s n) = Inr True"
    and "m \<notin> m_name ` set (m_skipList s)"
  shows "m_size (snd (erase s n)) = m_size s - 1 \<and>
    fst (insert_name (snd (erase s n)) m ident keyLocatorHash) = Inr True \<and>
    m_size (removeDeletedEntry (snd (erase s n))) = m_size (snd (erase s n)) \<and>
    m_maxPackets (removeDeletedEntry (snd (erase s n))) = m_maxPackets s"
proof -
  have sz: "m_size (snd (erase s n)) = m_size s - 1" and mx: "m_maxPackets (snd (erase s n)) = m_maxPackets s"
    using assms(2) by (auto simp: erase_def Let_def split: if_splits prod.splits)
  have nf: "\<not> isFull (snd (erase s n))"
    using assms(1) sz mx by (simp add: isFull_def)
  have "m \<notin> m_name ` set (m_skipList (snd (erase s n)))"
    using assms(3) erase_names [of s n] by blast
  then have "fst (insertEntry (snd (erase s n)) (Entry_hash m keyLocatorHash ident)) = Inr True"
    by (intro insertEntry_absent) (simp add: Entry_hash_def)
  with nf sz mx show ?thesis
    by (simp add: insert_name_def removeDeletedEntry_def)
qed

theorem insert_after_erase_succeeds_witness:
  "isFull (snd (insert_name (Index 1) nameA 1 None)) \<and>
   fst (erase (snd (insert_name (Index 1) nameA 1 None)) nameA) = Inr True \<and>
   nameB \<notin> m_name ` set (m_skipList (snd (insert_name (Index 1) nameA 1 None))) \<and>
   m_size (snd (erase (snd (insert_name (Index 1) nameA 1 None)) nameA)) = 0 \<and>
   fst (insert_name (snd (erase (snd (insert_name (Index 1) nameA 1 None)) nameA)) nameB 2 None)
     = Inr True"
proof -
  have h1: "isFull (snd (insert_name (Index 1) nameA 1 None))"
    by (simp add: index_defs skiplist_defs sample_defs)
  have h2: "fst (erase (snd (insert_name (Index 1) nameA 1 None)) nameA) = Inr True"
    by (simp add: index_defs skiplist_defs sample_defs)
  have h3: "nameB \<notin> m_name ` set (m_skipList (snd (insert_name (Index 1) nameA 1 None)))"
    by (simp add: index_defs skiplist_defs sample_defs)
  have s: "m_size (snd (insert_name (Index 1) nameA 1 None)) = 1"
    by (simp add: index_defs skiplist_defs sample_defs)
  from insert_after_erase_succeeds [OF h1 h2 h3, of 2 None] h1 h2 h3 s show ?thesis
    by simp
qed

subsection \<open>C5: insert: capacity and outcome\<close>

text \<open>
  C5. The claim: \<^verbatim>\<open>insert\<close> raises the capacity error if and only if the live size
  equals the configured maximum at the time of the call. \<^verbatim>\<open>insert\<close> reads the counter
  \<^verbatim>\<open>m_size\<close>, which the erase of an already DELETED name decrements a second time.
  After \<^verbatim>\<open>Index(2); insert(/a, 1); insert(/b, 2); erase(/a); erase(/a); insert(/c, 3)\<close>
  two entries are live, \<^verbatim>\<open>/b\<close> and \<^verbatim>\<open>/c\<close>, as many as the maximum, and \<^verbatim>\<open>m_size\<close> is 1:
  the insert of \<^verbatim>\<open>/d\<close> raises nothing, returns true and leaves three live entries in
  an index of capacity two. Where \<^verbatim>\<open>m_size\<close> is the live count the insert is as the
  claim says, the stored name, hash and id included (\<open>insert_outcome\<close>).
\<close>

theorem insert_at_live_maximum:
  "fst (erase (snd (erase
      (snd (insert_name (snd (insert_name (Index 2) nameA 1 None)) nameB 2 None))
      nameA)) nameA) = Inr True \<and>
   liveCount indexB_C = 2 \<and>
   m_maxPackets indexB_C = 2 \<and>
   m_size indexB_C = 1 \<and>
   fst (insert_name indexB_C nameD 4 None) = Inr True \<and>
   liveCount (snd (insert_name indexB_C nameD 4 None)) = 3"
proof -
  have v: "indexB_C =
     \<lparr>m_skipList =
        [\<lparr>m_name = nameA, m_keyLocatorHash = None, m_id = 1, m_status = DELETED\<rparr>,
         \<lparr>m_name = nameB, m_keyLocatorHash = None, m_id = 2, m_status = EXISTED\<rparr>,
         \<lparr>m_name = nameC, m_keyLocatorHash = None, m_id = 3, m_status = EXISTED\<rparr>],
      m_maxPackets = 2, m_size = 1\<rparr>"
    by (simp add: indexB_C_def index_defs skiplist_defs sample_defs nameC_def less_component_def)
  have e: "fst (erase (snd (erase
      (snd (insert_name (snd (insert_name (Index 2) nameA 1 None)) nameB 2 None))
      nameA)) nameA) = Inr True"
    by (simp add: index_defs skiplist_defs sample_defs less_component_def)
  show ?thesis
    unfolding v
    using e by (simp add: liveCount_def index_defs skiplist_defs sample_defs nameC_def nameD_def less_component_def)
qed

subsection \<open>C6: Termination of the rightmost loop\<close>

text \<open>
  C6. The claim: every operation terminates on every reachable state and every query,
  the \<^verbatim>\<open>while (true)\<close> loop of \<^verbatim>\<open>selectChild\<close> included, also when the index
  holds DELETED tombstones. On the index reached by inserting \<^verbatim>\<open>/a/1\<close> and \<^verbatim>\<open>/a/2\<close>
  and erasing \<^verbatim>\<open>/a/2\<close>, the rightmost query for \<^verbatim>\<open>/a\<close> never returns: the window of
  the last child holds only the tombstone, so \<^verbatim>\<open>first\<close> is skipped forward to \<^verbatim>\<open>last\<close>
  and \<^verbatim>\<open>last = first\<close> changes nothing.
\<close>

theorem find_rightmost_tombstone_diverges:
  "find_interest (\<lambda>k. k)
     (snd (erase (snd (insert_name (snd (insert_name (Index 10) nameA1 1 None)) nameA2 2 None)) nameA2))
     (plainInterest nameA 1) = None"
proof -
  let ?es = "[\<lparr>m_name = nameA1, m_keyLocatorHash = None, m_id = 1, m_status = EXISTED\<rparr>,
              \<lparr>m_name = nameA2, m_keyLocatorHash = None, m_id = 2, m_status = DELETED\<rparr>]"
  have s: "snd (erase (snd (insert_name (snd (insert_name (Index 10) nameA1 1 None)) nameA2 2 None)) nameA2)
    = \<lparr>m_skipList = ?es, m_maxPackets = 10, m_size = 1\<rparr>"
    by (simp add: index_defs skiplist_defs sample_defs less_component_def)
  have l: "rightmostLoop (plainInterest nameA 1) None ?es 0 (Suc (Suc 0)) = None"
    by (rule rightmostLoop_stuck)
      (simp add: stuckWindow_def sample_defs skiplist_defs getPrefix_def skipDeleted.simps less_component_def)
  show ?thesis
    unfolding s
    by (simp add: find_interest_def selectChild_def l [unfolded sample_defs] sample_defs skiplist_defs skipDeleted.simps getSuccessor_def
        componentSuccessor_def less_component_def)
qed

subsection \<open>C7: Resurrection\<close>

text \<open>
  C7. From an index in order that does not hold the name and is not full,
  \<^verbatim>\<open>insert(name, id1); erase(name); insert(name, id2)\<close> succeed one after the other and
  leave \<^verbatim>\<open>hasData\<close> true for the name, the size at its value before the erase, and
  \<open>id2\<close> as the id of the entry, which a find by the name returns.
\<close>

theorem resurrection:
  assumes "sorted_names (m_skipList s)"
    and "lookupName (m_skipList s) n = None"
    and "m_size s \<noteq> m_maxPackets s"
    and "getFullName d = n"
    and "s1 = snd (insert_name s n id1 hash1)"
    and "s2 = snd (erase s1 n)"
    and "s3 = snd (insert_name s2 n id2 hash2)"
  shows "fst (insert_name s n id1 hash1) = Inr True \<and>
    fst (erase s1 n) = Inr True \<and>
    fst (insert_name s2 n id2 hash2) = Inr True \<and>
    hasData sha256 s3 d \<and>
    m_size s3 = m_size s1 \<and>
    find_name s3 n = (id2, n) \<and>
    lookupName (m_skipList s3) n = Some ((Entry_hash n hash2 id2)\<lparr>m_status := INSERTED\<rparr>)"
proof -
  let ?e1 = "Entry_hash n hash1 id1"
  let ?e2 = "(Entry_hash n hash2 id2)\<lparr>m_status := INSERTED\<rparr>"
  have n1: "m_name ?e1 = n" and n2: "m_name ?e2 = n"
    by (simp_all add: Entry_hash_def)
  have i1: "insert_name s n id1 hash1 = insertEntry s ?e1"
    using assms(3) by (simp add: insert_name_def isFull_def)
  from insertEntry_sorted [OF assms(1), of ?e1] assms(2)
  have r1: "fst (insert_name s n id1 hash1) = Inr True" and st1: "stored s ?e1 s1"
    and z1: "m_size s1 = m_size s + 1"
    by (simp_all add: i1 n1 assms(5))
  from st1 have so1: "sorted_names (m_skipList s1)" and l1: "lookupName (m_skipList s1) n = Some ?e1"
    and m1: "m_maxPackets s1 = m_maxPackets s"
    by (simp_all add: stored_def n1)
  from erase_sorted [OF so1, of n] l1
  have r2: "fst (erase s1 n) = Inr True" and st2: "stored s1 (?e1\<lparr>m_status := DELETED\<rparr>) s2"
    and z2: "m_size s2 = m_size s1 - 1"
    by (simp_all add: assms(6))
  from st2 have so2: "sorted_names (m_skipList s2)"
    and l2: "lookupName (m_skipList s2) n = Some (?e1\<lparr>m_status := DELETED\<rparr>)"
    and m2: "m_maxPackets s2 = m_maxPackets s1"
    by (simp_all add: stored_def n1)
  have "m_size s2 \<noteq> m_maxPackets s2"
    using z1 z2 m1 m2 assms(3) by simp
  then have i3: "insert_name s2 n id2 hash2 = insertEntry s2 (Entry_hash n hash2 id2)"
    by (simp add: insert_name_def isFull_def)
  from insertEntry_sorted [OF so2, of "Entry_hash n hash2 id2"] l2
  have r3: "fst (insert_name s2 n id2 hash2) = Inr True" and st3: "stored s2 ?e2 s3"
    and z3: "m_size s3 = m_size s2 + 1"
    by (simp_all add: i3 assms(7) Entry_hash_def)
  from st3 have so3: "sorted_names (m_skipList s3)" and l3: "lookupName (m_skipList s3) n = Some ?e2"
    by (simp_all add: stored_def n2)
  have hd: "hasData sha256 s3 d"
    using l3 by (simp add: hasData_sorted [OF so3] assms(4))
  have fn: "find_name s3 n = (id2, n)"
    using find_name_exact [OF so3 l3] by (simp add: Entry_hash_def)
  from r1 r2 r3 hd fn l3 z1 z2 z3 show ?thesis by simp
qed

theorem resurrection_witness:
  "sorted_names (m_skipList (Index 1)) \<and>
   lookupName (m_skipList (Index 1)) nameA = None \<and>
   hasData (\<lambda>k::buffer. k)
     (snd (insert_name (snd (erase (snd (insert_name (Index 1) nameA 1 None)) nameA)) nameA 2 None))
     \<lparr>getFullName = nameA, getSignatureKeyLocator = None\<rparr> \<and>
   m_size (snd (insert_name (snd (erase (snd (insert_name (Index 1) nameA 1 None)) nameA)) nameA 2 None))
     = m_size (snd (insert_name (Index 1) nameA 1 None)) \<and>
   find_name (snd (insert_name (snd (erase (snd (insert_name (Index 1) nameA 1 None)) nameA)) nameA 2 None))
     nameA = (2, nameA)"
proof -
  have h1: "sorted_names (m_skipList (Index 1))"
    by (simp add: Index_def sorted_names_def)
  have h2: "lookupName (m_skipList (Index 1)) nameA = None"
    by (simp add: Index_def lookupName_def)
  have h3: "m_size (Index 1) \<noteq> m_maxPackets (Index 1)"
    by (simp add: Index_def)
  have h4: "getFullName \<lparr>getFullName = nameA, getSignatureKeyLocator = (None :: buffer option)\<rparr> = nameA"
    by simp
  from resurrection [OF h1 h2 h3 h4 refl refl refl, of 1 None 2 None "\<lambda>k. k"] h1 h2
  show ?thesis by simp
qed

subsection \<open>C8: getStatus before and after the prune\<close>

text \<open>
  C8, as the claim states it: after \<^verbatim>\<open>insert(/a); insert(/a/1); erase(/a)\<close> the status
  of \<^verbatim>\<open>/a\<close> is DELETED; after the prune the claim expects NONE. \<^verbatim>\<open>getStatus\<close> answers
  with the first entry that has \<^verbatim>\<open>/a\<close> as a prefix, now \<^verbatim>\<open>/a/1\<close>: EXISTED.
\<close>

theorem getStatus_after_prune_counterexample:
  "fst (erase indexA_A1 nameA) = Inr True \<and>
   getStatus (snd (erase indexA_A1 nameA)) nameA = DELETED \<and>
   getStatus (removeDeletedEntry (snd (erase indexA_A1 nameA))) nameA = EXISTED \<and>
   getStatus (removeDeletedEntry (snd (erase indexA_A1 nameA))) nameA \<noteq> NONE"
  by (simp add: indexA_A1_value erase_def skiplist_defs getStatus_def removeDeletedEntry_def
      removeDeletedLoop.simps sample_defs less_component_def)

text \<open>
  C8, amended: on an index in order, \<^verbatim>\<open>getStatus\<close> returns the status of the first
  entry whose name has the queried name as a prefix, DELETED included, and NONE when
  there is none; after a successful erase of a name its status is DELETED; after the
  prune the answer is the status of the first entry left that has the name as a
  prefix, and it is NONE when no entry that is not DELETED has the name as a prefix.
\<close>

theorem getStatus_first_descendant:
  assumes "sorted_names (m_skipList s)"
  shows "getStatus s n = statusOf (firstDescendant (m_skipList s) n) \<and>
    (fst (erase s n) = Inr True \<longrightarrow> getStatus (snd (erase s n)) n = DELETED) \<and>
    getStatus (removeDeletedEntry (snd (erase s n))) n
      = statusOf (firstLiveDescendant (m_skipList (snd (erase s n))) n) \<and>
    (firstLiveDescendant (m_skipList (snd (erase s n))) n = None \<longrightarrow>
       getStatus (removeDeletedEntry (snd (erase s n))) n = NONE)"
proof -
  let ?s2 = "snd (erase s n)"
  have so2: "sorted_names (m_skipList ?s2)"
    using assms by (rule erase_sorted_names)
  have so3: "sorted_names (m_skipList (removeDeletedEntry ?s2))"
    using so2 by (simp add: removeDeletedEntry_filter sorted_names_filter)
  have p1: "getStatus s n = statusOf (firstDescendant (m_skipList s) n)"
    using assms by (rule getStatus_sorted)
  have p2: "getStatus ?s2 n = DELETED" if "fst (erase s n) = Inr True"
  proof (cases "lookupName (m_skipList s) n")
    case None
    with erase_sorted [OF assms, of n] that show ?thesis by simp
  next
    case (Some x)
    with erase_sorted [OF assms, of n] have st: "stored s (x\<lparr>m_status := DELETED\<rparr>) ?s2"
      by simp
    from Some have "m_name x = n"
      using assms by (simp add: lookupName_Some_iff)
    with st have "lookupName (m_skipList ?s2) n = Some (x\<lparr>m_status := DELETED\<rparr>)"
      by (simp add: stored_def)
    from getStatus_exact [OF so2 this] show ?thesis by simp
  qed
  have p3: "getStatus (removeDeletedEntry ?s2) n = statusOf (firstLiveDescendant (m_skipList ?s2) n)"
    using getStatus_sorted [OF so3, of n]
    by (simp add: removeDeletedEntry_filter firstDescendant_def firstLiveDescendant_def find_filter)
  from p1 p2 p3 show ?thesis
    by (simp add: statusOf_def)
qed

theorem getStatus_first_descendant_witness:
  "sorted_names (m_skipList indexA_A1) \<and>
   fst (erase indexA_A1 nameA) = Inr True \<and>
   getStatus indexA_A1 nameA = statusOf (firstDescendant (m_skipList indexA_A1) nameA) \<and>
   getStatus (snd (erase indexA_A1 nameA)) nameA = DELETED \<and>
   firstLiveDescendant (m_skipList (snd (erase indexA_A1 nameA1))) nameA1 = None \<and>
   getStatus (removeDeletedEntry (snd (erase indexA_A1 nameA1))) nameA1 = NONE"
proof -
  have e: "fst (erase indexA_A1 nameA) = Inr True"
    by (simp add: indexA_A1_value erase_def skiplist_defs sample_defs less_component_def)
  have f: "firstLiveDescendant (m_skipList (snd (erase indexA_A1 nameA1))) nameA1 = None"
    by (simp add: indexA_A1_value erase_def skiplist_defs sample_defs less_component_def
        firstLiveDescendant_def)
  from getStatus_first_descendant [OF sorted_indexA_A1, of nameA]
    getStatus_first_descendant [OF sorted_indexA_A1, of nameA1] sorted_indexA_A1 e f
  show ?thesis by (simp add: statusOf_def)
qed

subsection \<open>C9: find by a bare name\<close>

text \<open>
  C9. On an index in order, the find by a bare name returns the id and name of the first
  entry that is not DELETED and has the name as a prefix, and the not-found pair when
  there is none; hence after two successful inserts of distinct names \<open>A\<close> and \<open>B\<close> the
  find of each returns its own id and name.
\<close>

theorem find_name_first_live:
  assumes "sorted_names (m_skipList s)"
  shows "find_name s n = foundOf (firstLiveDescendant (m_skipList s) n) \<and>
    (A \<noteq> B \<and> fst (insert_name s A idA hashA) = Inr True \<and>
     fst (insert_name (snd (insert_name s A idA hashA)) B idB hashB) = Inr True \<longrightarrow>
       find_name (snd (insert_name (snd (insert_name s A idA hashA)) B idB hashB)) A = (idA, A) \<and>
       find_name (snd (insert_name (snd (insert_name s A idA hashA)) B idB hashB)) B = (idB, B))"
proof (intro conjI impI)
  show "find_name s n = foundOf (firstLiveDescendant (m_skipList s) n)"
    using assms by (rule find_name_sorted)
next
  let ?s1 = "snd (insert_name s A idA hashA)"
  let ?s2 = "snd (insert_name ?s1 B idB hashB)"
  assume a: "A \<noteq> B \<and> fst (insert_name s A idA hashA) = Inr True \<and>
     fst (insert_name ?s1 B idB hashB) = Inr True"
  from insert_name_success [OF assms, of A idA hashA] a obtain eA where
    eA: "stored s eA ?s1" "m_name eA = A" "m_id eA = idA" "m_status eA \<noteq> DELETED"
    by blast
  then have so1: "sorted_names (m_skipList ?s1)" and lA1: "lookupName (m_skipList ?s1) A = Some eA"
    by (simp_all add: stored_def)
  from insert_name_success [OF so1, of B idB hashB] a obtain eB where
    eB: "stored ?s1 eB ?s2" "m_name eB = B" "m_id eB = idB" "m_status eB \<noteq> DELETED"
    by blast
  then have so2: "sorted_names (m_skipList ?s2)" and lB: "lookupName (m_skipList ?s2) B = Some eB"
    and fr: "lookupName (m_skipList ?s2) A = lookupName (m_skipList ?s1) A"
    using a by (simp_all add: stored_def)
  from find_name_exact [OF so2 lB eB(4)] eB(3)
  show "find_name ?s2 B = (idB, B)" by simp
  from find_name_exact [OF so2, of A eA] fr lA1 eA(3,4)
  show "find_name ?s2 A = (idA, A)" by simp
qed

theorem find_name_first_live_witness:
  "sorted_names (m_skipList (Index 10)) \<and> nameA \<noteq> nameA1 \<and>
   fst (insert_name (Index 10) nameA 1 None) = Inr True \<and>
   fst (insert_name (snd (insert_name (Index 10) nameA 1 None)) nameA1 2 None) = Inr True \<and>
   find_name indexA_A1 nameA = (1, nameA) \<and>
   find_name indexA_A1 nameA1 = (2, nameA1)"
proof -
  have h: "sorted_names (m_skipList (Index 10))"
    by (simp add: Index_def sorted_names_def)
  have d: "nameA \<noteq> nameA1"
    by (simp add: sample_defs)
  have i1: "fst (insert_name (Index 10) nameA 1 None) = Inr True"
    by (simp add: index_defs skiplist_defs sample_defs)
  have i2: "fst (insert_name (snd (insert_name (Index 10) nameA 1 None)) nameA1 2 None) = Inr True"
    by (simp add: index_defs skiplist_defs sample_defs less_component_def)
  from find_name_first_live [OF h, of nameA nameA nameA1 1 None 2 None] h d i1 i2
  show ?thesis by (simp add: indexA_A1_def)
qed

subsection \<open>C10: The publisher filter on an entry without a hash\<close>

text \<open>
  C10. The claim: whenever the predicate dereferences the key-locator hash of an entry,
  the hash is present. An entry made from a content item whose signature has no key
  locator keeps the null hash; a query that carries a publisher key locator and reaches
  that entry dereferences it.
\<close>

theorem find_null_keyLocatorHash:
  "find_interest sha256
     (snd (insert_data sha256 (Index 10) \<lparr>getFullName = nameA1, getSignatureKeyLocator = None\<rparr> 1))
     \<lparr>getName = nameA, getMinSuffixComponents = - 1, getMaxSuffixComponents = - 1,
      getExclude = None, getChildSelector = - 1,
      getPublisherPublicKeyLocator = Some keyLocator\<rparr> = Some (Inl NullPointer)"
  by (simp add: find_interest_def selectChild_def leftmostLoop.simps matchesSimpleSelectors_def
      index_defs skiplist_defs sample_defs)

end
